(* ===== verification/Prelude.thy ===== *)
theory Prelude
  imports Main "HOL-Library.Sublist"
begin

text \<open>
  Shared vocabulary of the ExcelAcademy build-pipeline development.
  A JavaScript string is modelled as a list of HOL characters, that is, as a string of
  Latin-1 code units (U+0000 to U+00FF); \<open>length\<close> is then JavaScript's \<open>.length\<close>.
  The theory fixes the character classes that ECMAScript regular expressions give
  \<open>\s\<close> and \<open>.\<close> on that range, \<open>String.prototype.trim\<close>, a prefix test, and a
  predicate on adjacent characters with its algebra, which the component theories share.
\<close>

named_theorems ws_simps "equations on whitespace runs and adjacency"

type_synonym jsstr = string

subsection \<open>ECMAScript character classes on Latin-1\<close>

text \<open>
  \<open>\s\<close> is WhiteSpace or LineTerminator. In Latin-1 these are TAB, LF, VT, FF, CR,
  SPACE and NO-BREAK SPACE; the other Unicode spaces lie above U+00FF.
  The line terminators (what \<open>.\<close> does not match and what \<open>^\<close> and \<open>$\<close> of a
  multiline pattern look for) are LF and CR there.
\<close>

definition is_space :: "char \<Rightarrow> bool" where
  "is_space c \<longleftrightarrow>
     c \<in> {CHR 0x09, CHR 0x0A, CHR 0x0B, CHR 0x0C, CHR 0x0D, CHR 0x20, CHR 0xA0}"

definition is_line_term :: "char \<Rightarrow> bool" where
  "is_line_term c \<longleftrightarrow> c = CHR 0x0A \<or> c = CHR 0x0D"

text \<open>\<open>String.prototype.trim\<close> strips WhiteSpace and LineTerminator at both ends.\<close>

definition js_trim :: "jsstr \<Rightarrow> jsstr" where
  "js_trim s = rev (dropWhile is_space (rev (dropWhile is_space s)))"

text \<open>A literal prefix test, executable on concrete strings.\<close>

fun starts_with :: "jsstr \<Rightarrow> jsstr \<Rightarrow> bool" where
  "starts_with [] s = True"
| "starts_with (a # as) [] = False"
| "starts_with (a # as) (b # bs) = (a = b \<and> starts_with as bs)"

text \<open>Two neighbouring characters in relation \<open>R\<close> somewhere in a string.\<close>

fun adjacent :: "(char \<Rightarrow> char \<Rightarrow> bool) \<Rightarrow> jsstr \<Rightarrow> bool" where
  "adjacent R (a # b # s) = (R a b \<or> adjacent R (b # s))"
| "adjacent R _ = False"

subsection \<open>Lemmas\<close>

lemma space_simps [simp]:
  "is_space CHR 0x20" "is_space CHR 0x0A" "is_space CHR 0x09" "is_space CHR 0x0D"
  by (simp_all add: is_space_def)

lemma line_term_is_space: "is_line_term c \<Longrightarrow> is_space c"
  by (auto simp: is_line_term_def is_space_def)

lemma starts_with_iff: "starts_with xs s \<longleftrightarrow> (\<exists>t. s = xs @ t)"
  by (induction xs s rule: starts_with.induct) auto

lemma starts_with_length: "starts_with xs s \<Longrightarrow> length xs \<le> length s"
  by (auto simp: starts_with_iff)

lemma starts_with_take: "starts_with xs s \<Longrightarrow> take (length xs) s = xs"
  by (auto simp: starts_with_iff)

lemma adjacent_Cons [ws_simps]:
  "adjacent R (a # s) = (s \<noteq> [] \<and> (R a (hd s) \<or> adjacent R s))"
  by (cases s) auto

lemma adjacent_append [ws_simps]:
  "adjacent R (xs @ ys) \<longleftrightarrow>
     adjacent R xs \<or> adjacent R ys \<or> (xs \<noteq> [] \<and> ys \<noteq> [] \<and> R (last xs) (hd ys))"
  by (induction xs) (auto simp: adjacent_Cons)

lemma takeWhile_space_hd:
  "takeWhile is_space s = [] \<Longrightarrow> s \<noteq> [] \<Longrightarrow> \<not> is_space (hd s)"
  by (cases s) (auto split: if_splits)

lemma dropWhile_space_hd [ws_simps]:
  "dropWhile is_space s \<noteq> [] \<Longrightarrow> \<not> is_space (hd (dropWhile is_space s))"
  by (induction s) auto

lemma takeWhile_dropWhile_length [ws_simps]:
  "drop (length (takeWhile P s)) s = dropWhile P s"
  by (induction s) auto

lemma filter_takeWhile_space [ws_simps]:
  "filter (\<lambda>c. \<not> is_space c) (takeWhile is_space s) = []"
  by (induction s) auto

lemma set_takeWhile_space: "c \<in> set (takeWhile is_space s) \<Longrightarrow> is_space c"
  by (induction s) (auto split: if_splits)

lemma prefix_snoc_distinct:
  "prefix (xs @ [i]) p \<Longrightarrow> prefix (xs @ [j]) p \<Longrightarrow> i = j"
  by (auto simp: prefix_def)

lemma butlast_neq_self [simp]: "xs \<noteq> [] \<Longrightarrow> butlast xs \<noteq> xs"
  by (cases xs rule: rev_cases) auto

lemma prefix_butlast_self: "prefix (butlast xs) xs"
  by (simp add: butlast_conv_take take_is_prefix)

lemma foldl_pair_sum:
  "foldl (\<lambda>acc x. (fst acc + f x, snd acc + g x)) a xs = (fst a + sum_list (map f xs), snd a + sum_list (map g xs))"
  by (induction xs arbitrary: a) (auto simp: add.assoc)

lemma foldl_append_concat: "foldl (\<lambda>s x. s @ f x) a xs = a @ concat (map f xs)"
  by (induction xs arbitrary: a) auto

lemma sum_list_filter_disj:
  assumes "\<And>x. P x \<Longrightarrow> Q x \<Longrightarrow> False"
  shows "sum_list (map (f :: 'a \<Rightarrow> nat) (filter (\<lambda>x. P x \<or> Q x) xs)) = sum_list (map f (filter P xs)) + sum_list (map f (filter Q xs))"
proof (induction xs)
  case (Cons a xs)
  with assms show ?case by (cases "P a"; cases "Q a") (auto simp: add_ac)
qed simp

lemma sum_list_filter_partition:
  assumes "distinct ks" "\<And>i j x. Q i x \<Longrightarrow> Q j x \<Longrightarrow> i = j"
  shows "sum_list (map (f :: 'a \<Rightarrow> nat) (filter (\<lambda>x. \<exists>i\<in>set ks. Q i x) xs)) = sum_list (map (\<lambda>i. sum_list (map f (filter (Q i) xs))) ks)"
  using assms(1)
proof (induction ks)
  case (Cons i ks)
  have "sum_list (map f (filter (\<lambda>x. Q i x \<or> (\<exists>j\<in>set ks. Q j x)) xs)) =
        sum_list (map f (filter (Q i) xs)) + sum_list (map f (filter (\<lambda>x. \<exists>j\<in>set ks. Q j x) xs))"
  proof (rule sum_list_filter_disj)
    fix x assume "Q i x" "\<exists>j\<in>set ks. Q j x"
    then obtain j where j: "j \<in> set ks" "Q j x" by blast
    with assms(2) [OF \<open>Q i x\<close> j(2)] Cons.prems show False by simp
  qed
  with Cons show ?case by simp
qed simp

lemma adjacent_mono: "adjacent R s \<Longrightarrow> (\<And>a b. R a b \<Longrightarrow> S a b) \<Longrightarrow> adjacent S s"
  by (induction R s rule: adjacent.induct) auto

end
