(* ===== verification/FileSystem.thy ===== *)
theory FileSystem
  imports Prelude "HOL-Library.AList"
begin

text \<open>
  The part of Node's \<open>fs\<close> and \<open>path\<close> modules that the build scripts call, as an
  explicit state. A path is the list of its components relative to the working
  directory, so \<open>'.'\<close> is \<open>[]\<close> and \<open>path.join(a, b)\<close> of a name \<open>b\<close> is
  \<open>a @ [b]\<close>. The file system is an association list from paths to nodes in creation
  order: \<open>readdirSync\<close> lists the children of a directory in that order (Node leaves
  the order to the operating system; the spec calls it unspecified). The working
  directory itself is the implicit root directory and is never stored.
  File contents are JavaScript strings with one byte per character, which is exact for
  ASCII files (UTF-8 decoding is the identity there).
  Each call returns \<open>error + _\<close>: the exception Node throws is the \<open>Inl\<close> branch;
  \<open>ELIB\<close> is an exception thrown by a library the build calls on a file.
\<close>

type_synonym path = "string list"

datatype node = File jsstr | Dir

type_synonym fs = "(path \<times> node) list"

datatype error = ENOENT path | ENOTDIR path | EISDIR path | EEXIST path | ELIB path

definition lookup :: "fs \<Rightarrow> path \<Rightarrow> node option" where
  "lookup st p = (if p = [] then Some Dir else map_of st p)"

text \<open>Storing a node: an existing entry is replaced in place, a new one is appended.\<close>

definition put :: "fs \<Rightarrow> path \<Rightarrow> node \<Rightarrow> fs" where
  "put st p n = AList.update p n st"

text \<open>
  The error of an access to a missing path: \<open>ENOTDIR\<close> when a proper ancestor is a
  file, \<open>ENOENT\<close> otherwise.
\<close>

fun is_file :: "node option \<Rightarrow> bool" where
  "is_file (Some (File c)) = True"
| "is_file _ = False"

definition missing :: "fs \<Rightarrow> path \<Rightarrow> error" where
  "missing st p =
     (if \<exists>i < length p. is_file (lookup st (take i p)) then ENOTDIR p else ENOENT p)"

definition exists_sync :: "fs \<Rightarrow> path \<Rightarrow> bool" where
  "exists_sync st p \<longleftrightarrow> lookup st p \<noteq> None"

text \<open>\<open>fs.lstatSync(p).isDirectory()\<close>.\<close>

definition is_directory :: "fs \<Rightarrow> path \<Rightarrow> error + bool" where
  "is_directory st p =
     (case lookup st p of None \<Rightarrow> Inl (missing st p) | Some n \<Rightarrow> Inr (n = Dir))"

text \<open>\<open>fs.readdirSync(p)\<close>: the names of the children, in creation order.\<close>

definition children :: "fs \<Rightarrow> path \<Rightarrow> string list" where
  "children st d = [last p. (p, n) \<leftarrow> st, p \<noteq> [] \<and> butlast p = d]"

definition readdir :: "fs \<Rightarrow> path \<Rightarrow> error + string list" where
  "readdir st p =
     (case lookup st p of
        None \<Rightarrow> Inl (missing st p)
      | Some (File c) \<Rightarrow> Inl (ENOTDIR p)
      | Some Dir \<Rightarrow> Inr (children st p))"

text \<open>\<open>fs.readFileSync(p)\<close>.\<close>

definition read_file :: "fs \<Rightarrow> path \<Rightarrow> error + jsstr" where
  "read_file st p =
     (case lookup st p of
        None \<Rightarrow> Inl (missing st p)
      | Some Dir \<Rightarrow> Inl (EISDIR p)
      | Some (File c) \<Rightarrow> Inr c)"

text \<open>\<open>fs.writeFileSync(p, c)\<close>: the parent must be a directory.\<close>

definition write_file :: "fs \<Rightarrow> path \<Rightarrow> jsstr \<Rightarrow> error + fs" where
  "write_file st p c =
     (if p = [] then Inl (EISDIR p)
      else case lookup st (butlast p) of
        None \<Rightarrow> Inl (missing st p)
      | Some (File d) \<Rightarrow> Inl (ENOTDIR p)
      | Some Dir \<Rightarrow>
          (case lookup st p of
             Some Dir \<Rightarrow> Inl (EISDIR p)
           | _ \<Rightarrow> Inr (put st p (File c))))"

text \<open>\<open>fs.copyFileSync(src, dst)\<close>.\<close>

definition copy_file :: "fs \<Rightarrow> path \<Rightarrow> path \<Rightarrow> error + fs" where
  "copy_file st src dst =
     (case read_file st src of Inl e \<Rightarrow> Inl e | Inr c \<Rightarrow> write_file st dst c)"

text \<open>
  \<open>fs.mkdirSync(p, {recursive: true})\<close>: every missing ancestor is created, an existing
  directory is accepted, a file in the way is an error.
\<close>

fun mkdir_from :: "path \<Rightarrow> string list \<Rightarrow> fs \<Rightarrow> error + fs" where
  "mkdir_from base [] st = Inr st"
| "mkdir_from base (c # cs) st =
     (let q = base @ [c] in
      case lookup st q of
        None \<Rightarrow> mkdir_from q cs (put st q Dir)
      | Some Dir \<Rightarrow> mkdir_from q cs st
      | Some (File d) \<Rightarrow> Inl (if cs = [] then EEXIST q else ENOTDIR q))"

definition mkdir_p :: "fs \<Rightarrow> path \<Rightarrow> error + fs" where
  "mkdir_p st p = mkdir_from [] p st"

text \<open>\<open>fs.rmSync(p, {recursive: true})\<close>: the node and everything below it.\<close>

definition rm_rf :: "fs \<Rightarrow> path \<Rightarrow> error + fs" where
  "rm_rf st p =
     (if lookup st p = None then Inl (missing st p)
      else Inr (filter (\<lambda>(q, n). \<not> prefix p q) st))"

text \<open>\<open>path.basename\<close> and \<open>path.dirname\<close> of a path built by \<open>path.join\<close>.\<close>

definition basename :: "path \<Rightarrow> string" where
  "basename p = (if p = [] then ''.'' else last p)"

definition dirname :: "path \<Rightarrow> path" where
  "dirname p = butlast p"

text \<open>
  Well-formedness: keys are distinct, the root is not stored, and the parent of every
  entry is a directory.
\<close>

definition wf_fs :: "fs \<Rightarrow> bool" where
  "wf_fs st \<longleftrightarrow> distinct (map fst st) \<and>
     (\<forall>(p, n) \<in> set st. p \<noteq> [] \<and> lookup st (butlast p) = Some Dir)"

abbreviation keys :: "fs \<Rightarrow> path set" where
  "keys st \<equiv> set (map fst st)"

text \<open>
  Sizes as \<open>getDirectorySize\<close> counts them, and the entries strictly below a path.
\<close>

primrec node_bytes :: "node \<Rightarrow> nat" where
  "node_bytes (File c) = length c"
| "node_bytes Dir = 0"

primrec node_files :: "node \<Rightarrow> nat" where
  "node_files (File c) = 1"
| "node_files Dir = 0"

definition below :: "fs \<Rightarrow> path \<Rightarrow> fs" where
  "below st d = filter (\<lambda>(p, nd). strict_prefix d p) st"

text \<open>No directory of \<open>st\<close> is gone or replaced in \<open>st'\<close>.\<close>

definition dirs_kept :: "fs \<Rightarrow> fs \<Rightarrow> bool" where
  "dirs_kept st st' \<longleftrightarrow> (\<forall>q. lookup st q = Some Dir \<longrightarrow> lookup st' q = Some Dir)"

subsection \<open>Lemmas\<close>

lemma lookup_Nil [simp]: "lookup st [] = Some Dir"
  by (simp add: lookup_def)

lemma lookup_put: "lookup (put st p n) q = (if q = p \<and> p \<noteq> [] then Some n else lookup st q)"
  by (simp add: lookup_def put_def update_conv')

lemma keys_put: "set (map fst (put st p n)) = insert p (set (map fst st))"
  by (simp add: put_def dom_update)

lemma distinct_put: "distinct (map fst st) \<Longrightarrow> distinct (map fst (put st p n))"
  by (simp add: put_def distinct_update)

lemma lookup_Some_key: "lookup st p = Some n \<Longrightarrow> p \<noteq> [] \<Longrightarrow> (p, n) \<in> set st"
  by (auto simp: lookup_def dest: map_of_SomeD)

lemma key_lookup: "distinct (map fst st) \<Longrightarrow> (p, n) \<in> set st \<Longrightarrow> p \<noteq> [] \<Longrightarrow> lookup st p = Some n"
  by (simp add: lookup_def)

lemma put_new: "p \<notin> keys st \<Longrightarrow> put st p n = st @ [(p, n)]"
  by (induction st) (auto simp: put_def)

lemma put_last: "p \<notin> keys st \<Longrightarrow> put (st @ [(p, n)]) p m = st @ [(p, m)]"
  by (induction st) (auto simp: put_def)

lemma lookup_append_fresh: "p \<notin> keys acc \<Longrightarrow> lookup (st @ acc) p = lookup st p"
proof -
  assume "p \<notin> keys acc"
  then have "map_of acc p = None" by (simp add: map_of_eq_None_iff)
  then show ?thesis by (simp add: lookup_def map_of_append map_add_def split: option.splits)
qed

lemma lookup_append_left: "lookup st p = Some n \<Longrightarrow> lookup (st @ acc) p = Some n"
  by (auto simp: lookup_def map_of_append)

lemma lookup_snoc_same: "p \<noteq> [] \<Longrightarrow> p \<notin> keys st \<Longrightarrow> lookup (st @ [(p, n)]) p = Some n"
proof -
  assume "p \<noteq> []" "p \<notin> keys st"
  then have "map_of st p = None" by (simp add: map_of_eq_None_iff)
  with \<open>p \<noteq> []\<close> show ?thesis by (simp add: lookup_def map_of_append map_add_def)
qed

lemma children_append: "children (st @ acc) d = children st d @ children acc d"
  by (simp add: children_def)

lemma children_none: "\<forall>p\<in>keys acc. p = [] \<or> butlast p \<noteq> d \<Longrightarrow> children acc d = []"
  by (induction acc) (auto simp: children_def)

lemma distinct_children: "distinct (map fst st) \<Longrightarrow> distinct (children st d)"
proof (induction st)
  case (Cons e st)
  obtain p n where e: "e = (p, n)" by fastforce
  have "last p \<notin> set (children st d)" if "p \<noteq> []" "butlast p = d"
  proof
    assume "last p \<in> set (children st d)"
    then obtain q m where "(q, m) \<in> set st" "q \<noteq> []" "butlast q = d" "last q = last p"
      by (auto simp: children_def)
    then have "q = p" using that by (metis append_butlast_last_id)
    with \<open>(q, m) \<in> set st\<close> Cons.prems e show False by force
  qed
  with Cons e show ?case by (auto simp: children_def)
qed (simp add: children_def)

lemma children_mem: "i \<in> set (children st d) \<Longrightarrow> \<exists>n. (d @ [i], n) \<in> set st"
  by (auto simp: children_def)

lemma lookup_None_key: "lookup st p = None \<Longrightarrow> p \<notin> keys st \<and> p \<noteq> []"
  unfolding lookup_def by (auto split: if_splits simp: map_of_eq_None_iff)

lemma mkdir_from_fresh:
  "\<forall>i < length cs. lookup st (base @ take i cs) = Some Dir \<Longrightarrow> lookup st (base @ cs) = None \<Longrightarrow>
   cs \<noteq> [] \<Longrightarrow> mkdir_from base cs st = Inr (st @ [(base @ cs, Dir)])"
proof (induction cs arbitrary: base)
  case (Cons c cs)
  show ?case
  proof (cases cs)
    case Nil
    with Cons.prems(2) have "lookup st (base @ [c]) = None" by simp
    with lookup_None_key [OF this] show ?thesis using Nil by (simp add: put_new)
  next
    case (Cons c' cs')
    from Cons.prems(1) [rule_format, of 1] \<open>cs = c' # cs'\<close>
    have "lookup st (base @ [c]) = Some Dir" by simp
    moreover have "\<forall>i < length cs. lookup st ((base @ [c]) @ take i cs) = Some Dir"
    proof (intro allI impI)
      fix i assume "i < length cs"
      with Cons.prems(1) [rule_format, of "Suc i"] show "lookup st ((base @ [c]) @ take i cs) = Some Dir"
        by simp
    qed
    ultimately show ?thesis using Cons.IH [of "base @ [c]"] Cons.prems(2) \<open>cs = c' # cs'\<close>
      by simp
  qed
qed simp

lemma mkdir_p_fresh:
  "\<forall>i < length p. lookup st (take i p) = Some Dir \<Longrightarrow> lookup st p = None \<Longrightarrow>
   mkdir_p st p = Inr (st @ [(p, Dir)])"
  using mkdir_from_fresh [of p st "[]"] lookup_None_key [of st p] by (simp add: mkdir_p_def)

lemma children_iff: "i \<in> set (children st d) \<longleftrightarrow> lookup st (d @ [i]) \<noteq> None"
  by (auto simp: children_def lookup_def image_iff dest: map_of_SomeD weak_map_of_SomeI
      intro!: bexI [where x = "(d @ [i], _)"])

lemma set_put: "set (put st p v) \<subseteq> insert (p, v) (set st)"
  unfolding put_def by (induction st) auto

lemma wf_put_file:
  assumes "wf_fs st" "p \<noteq> []" "lookup st (butlast p) = Some Dir" "lookup st p \<noteq> Some Dir"
  shows "wf_fs (put st p (File c))"
proof -
  have "q \<noteq> [] \<and> lookup (put st p (File c)) (butlast q) = Some Dir" if "(q, nd) \<in> set (put st p (File c))" for q nd
  proof (cases "q = p")
    case True
    with assms(2,3) show ?thesis by (simp add: lookup_put)
  next
    case False
    with that set_put have q: "(q, nd) \<in> set st" by fastforce
    with assms(1) have "q \<noteq> []" "lookup st (butlast q) = Some Dir" by (auto simp: wf_fs_def)
    moreover have "butlast q \<noteq> p" using calculation(2) assms(4) by auto
    ultimately show ?thesis by (simp add: lookup_put)
  qed
  with assms(1) show ?thesis by (auto simp: wf_fs_def distinct_put)
qed

lemma write_file_Inr:
  "write_file st p c = Inr st' \<Longrightarrow>
     p \<noteq> [] \<and> lookup st (butlast p) = Some Dir \<and> lookup st p \<noteq> Some Dir \<and> st' = put st p (File c)"
  by (auto simp: write_file_def split: if_splits option.splits node.splits)

lemma wf_write_file: "wf_fs st \<Longrightarrow> write_file st p c = Inr st' \<Longrightarrow> wf_fs st'"
  using write_file_Inr [of st p c st'] wf_put_file [of st p c] by auto

lemma filter_key:
  "distinct (map fst st) \<Longrightarrow> (p, nd) \<in> set st \<Longrightarrow> filter (\<lambda>e. fst e = p) st = [(p, nd)]"
  by (induction st) (auto simp: filter_empty_conv image_iff)

lemma wf_ancestor_key:
  assumes "wf_fs st" "p \<in> keys st" "prefix q p" "q \<noteq> []"
  shows "q \<in> keys st"
  using assms(2,3)
proof (induction "length p - length q" arbitrary: p)
  case 0
  then show ?case by (force simp: prefix_def)
next
  case (Suc k)
  then have "q \<noteq> p" by auto
  with Suc.prems(2) have "prefix q (butlast p)" by (auto simp: prefix_def butlast_append)
  moreover obtain nd where "(p, nd) \<in> set st" using Suc.prems(1) by auto
  with assms(1) have "lookup st (butlast p) = Some Dir" "p \<noteq> []" by (auto simp: wf_fs_def)
  moreover have "butlast p \<noteq> []" using \<open>prefix q (butlast p)\<close> assms(4) by auto
  ultimately have "butlast p \<in> keys st" using lookup_Some_key by force
  with Suc.hyps(1) [of "butlast p"] Suc.hyps(2) \<open>prefix q (butlast p)\<close> show ?case by simp
qed

lemma wf_child_key:
  assumes "wf_fs st" "(p, nd) \<in> set st" "strict_prefix d p"
  shows "d @ [p ! length d] \<in> keys st \<and> prefix (d @ [p ! length d]) p"
proof -
  from assms(3) obtain r where r: "p = d @ r" "r \<noteq> []" by (auto simp: strict_prefix_def prefix_def)
  then have pre: "prefix (d @ [p ! length d]) p" by (cases r) (auto simp: nth_append)
  have "d @ [p ! length d] \<in> keys st"
    by (rule wf_ancestor_key [OF assms(1) _ pre]) (use assms(2) in force)+
  with pre show ?thesis by simp
qed

lemma file_no_below:
  assumes "wf_fs st" "lookup st q = Some (File c)"
  shows "below st q = []"
proof -
  have False if "(p, nd) \<in> set st" "strict_prefix q p" for p nd
  proof -
    from wf_child_key [OF assms(1) that] obtain m where "(q @ [p ! length q], m) \<in> set st" by auto
    with assms(1) have "lookup st (butlast (q @ [p ! length q])) = Some Dir"
      unfolding wf_fs_def by blast
    then have "lookup st q = Some Dir" by simp
    with assms(2) show False by simp
  qed
  then show ?thesis unfolding below_def filter_empty_conv by blast
qed

lemma below_sum:
  assumes "wf_fs st"
  shows "sum_list (map (h :: path \<times> node \<Rightarrow> nat) (below st d)) =
    sum_list (map (\<lambda>i. (case lookup st (d @ [i]) of Some nd \<Rightarrow> h (d @ [i], nd) | None \<Rightarrow> 0)
      + sum_list (map h (below st (d @ [i])))) (children st d))"
proof -
  have dist: "distinct (map fst st)" using assms by (simp add: wf_fs_def)
  have "below st d = filter (\<lambda>e. \<exists>i\<in>set (children st d). prefix (d @ [i]) (fst e)) st"
    unfolding below_def
  proof (rule filter_cong [OF refl])
    fix e assume "e \<in> set st"
    obtain p nd where e0: "e = (p, nd)" by fastforce
    with \<open>e \<in> set st\<close> have e: "e = (p, nd)" "(p, nd) \<in> set st" by simp_all
    show "(case e of (p, nd) \<Rightarrow> strict_prefix d p) = (\<exists>i\<in>set (children st d). prefix (d @ [i]) (fst e))"
    proof
      assume "case e of (p, nd) \<Rightarrow> strict_prefix d p"
      with e have "strict_prefix d p" by simp
      from wf_child_key [OF assms e(2) this]
      have key: "d @ [p ! length d] \<in> keys st" and pre: "prefix (d @ [p ! length d]) p" by auto
      from key have "lookup st (d @ [p ! length d]) \<noteq> None" using lookup_None_key by blast
      then have "p ! length d \<in> set (children st d)" by (simp add: children_iff)
      with pre e(1) show "\<exists>i\<in>set (children st d). prefix (d @ [i]) (fst e)" by auto
    next
      assume "\<exists>i\<in>set (children st d). prefix (d @ [i]) (fst e)"
      with e(1) show "case e of (p, nd) \<Rightarrow> strict_prefix d p"
        by (auto simp: strict_prefix_def prefix_def)
    qed
  qed
  then have "sum_list (map h (below st d)) =
      sum_list (map (\<lambda>i. sum_list (map h (filter (\<lambda>e. prefix (d @ [i]) (fst e)) st))) (children st d))"
    using sum_list_filter_partition [where Q = "\<lambda>i e. prefix (d @ [i]) (fst e)" and f = h and xs = st,
        OF distinct_children [OF dist] prefix_snoc_distinct]
    by simp
  also have "\<dots> = sum_list (map (\<lambda>i. (case lookup st (d @ [i]) of Some nd \<Rightarrow> h (d @ [i], nd) | None \<Rightarrow> 0)
      + sum_list (map h (below st (d @ [i])))) (children st d))"
  proof (rule arg_cong [where f = sum_list], rule map_cong [OF refl])
    fix i assume "i \<in> set (children st d)"
    then obtain nd where nd: "(d @ [i], nd) \<in> set st" using children_mem by blast
    then have lk: "lookup st (d @ [i]) = Some nd" using key_lookup [OF dist] by simp
    have "filter (\<lambda>e. prefix (d @ [i]) (fst e)) st =
        filter (\<lambda>e. fst e = d @ [i] \<or> strict_prefix (d @ [i]) (fst e)) st"
      by (rule filter_cong) (auto simp: strict_prefix_def)
    then have "sum_list (map h (filter (\<lambda>e. prefix (d @ [i]) (fst e)) st)) =
        sum_list (map h (filter (\<lambda>e. fst e = d @ [i]) st)) + sum_list (map h (below st (d @ [i])))"
      using sum_list_filter_disj [of "\<lambda>e. fst e = d @ [i]" "\<lambda>e. strict_prefix (d @ [i]) (fst e)" h st]
      by (simp add: below_def case_prod_beta')
    with filter_key [OF dist nd] lk
    show "sum_list (map h (filter (\<lambda>e. prefix (d @ [i]) (fst e)) st)) =
        (case lookup st (d @ [i]) of Some nd \<Rightarrow> h (d @ [i], nd) | None \<Rightarrow> 0) + sum_list (map h (below st (d @ [i])))"
      by simp
  qed
  finally show ?thesis .
qed

lemma is_file_Some [simp]: "is_file (Some nd) \<longleftrightarrow> nd \<noteq> Dir"
  by (cases nd) auto

lemma write_file_frame: "write_file st p c = Inr st' \<Longrightarrow> lookup st' q \<noteq> lookup st q \<Longrightarrow> q = p"
  using write_file_Inr [of st p c st'] by (auto simp: lookup_put split: if_splits)

lemma mkdir_from_frame:
  "mkdir_from base cs st = Inr st' \<Longrightarrow> lookup st' q \<noteq> lookup st q \<Longrightarrow>
   prefix q (base @ cs) \<and> lookup st' q = Some Dir"
proof (induction cs arbitrary: base st)
  case (Cons c cs)
  show ?case
  proof (cases "lookup st (base @ [c])")
    case None
    with Cons.prems(1) have m: "mkdir_from (base @ [c]) cs (put st (base @ [c]) Dir) = Inr st'"
      by (simp add: Let_def)
    show ?thesis
    proof (cases "lookup st' q = lookup (put st (base @ [c]) Dir) q")
      case True
      with Cons.prems(2) have "q = base @ [c]" by (auto simp: lookup_put split: if_splits)
      with True show ?thesis by (simp add: lookup_put)
    next
      case False
      from Cons.IH [OF m False] show ?thesis by simp
    qed
  next
    case (Some nd)
    with Cons.prems Cons.IH [of "base @ [c]" st] show ?thesis
      by (cases nd) (auto simp: Let_def split: if_splits)
  qed
qed simp

lemma mkdir_from_target:
  "mkdir_from base cs st = Inr st' \<Longrightarrow> cs \<noteq> [] \<Longrightarrow> lookup st' (base @ cs) = Some Dir"
proof (induction cs arbitrary: base st)
  case (Cons c cs)
  show ?case
  proof (cases cs)
    case Nil
    with Cons.prems show ?thesis
      by (auto simp: lookup_put Let_def split: option.splits node.splits)
  next
    case (Cons c' cs')
    with Cons.prems Cons.IH [of "base @ [c]"] show ?thesis
      by (auto simp: Let_def split: option.splits node.splits)
  qed
qed simp

lemma dirs_kept_refl [intro]: "dirs_kept st st"
  by (simp add: dirs_kept_def)

lemma dirs_kept_trans: "dirs_kept st st1 \<Longrightarrow> dirs_kept st1 st2 \<Longrightarrow> dirs_kept st st2"
  by (simp add: dirs_kept_def)

lemma dirs_kept_write: "write_file st p c = Inr st' \<Longrightarrow> dirs_kept st st'"
  by (auto simp: dirs_kept_def write_file_def lookup_put split: if_splits option.splits node.splits)

lemma dirs_kept_mkdir_from: "mkdir_from base cs st = Inr st' \<Longrightarrow> dirs_kept st st'"
  unfolding dirs_kept_def using mkdir_from_frame by metis

end
