(* ===== verification/Regex.thy ===== *)
theory Regex
  imports Prelude
begin

text \<open>
  The semantics of \<open>String.prototype.replace\<close> with a global regular expression, as
  ECMAScript defines it: the engine tries a match at position 0, then at each later
  position in turn; a match at a position replaces the matched text and scanning resumes
  at its end; an empty match copies the next character and resumes after it; text
  between matches is copied unchanged.
  A pattern is given by its \<^emph>\<open>matcher\<close>: the match the backtracking engine finds when
  it is anchored at the current position, as the number of characters matched and the
  replacement text (with \<open>$1\<close> already substituted), or \<open>None\<close>. The matcher also
  sees the character before the position (\<open>None\<close> at the start of the input), which
  \<open>^\<close> of a multiline pattern inspects.
  One matcher is defined here for each shape of pattern that the build scripts use.
\<close>

type_synonym matcher = "char option \<Rightarrow> jsstr \<Rightarrow> (nat \<times> jsstr) option"

function gsub :: "matcher \<Rightarrow> char option \<Rightarrow> jsstr \<Rightarrow> jsstr" where
  "gsub m p s =
     (case m p s of
        None \<Rightarrow> (case s of [] \<Rightarrow> [] | c # s' \<Rightarrow> c # gsub m (Some c) s')
      | Some (k, r) \<Rightarrow>
          (case s of
             [] \<Rightarrow> r
           | c # s' \<Rightarrow>
               (if k = 0 then r @ c # gsub m (Some c) s'
                else r @ gsub m (Some (last (take k s))) (drop k s))))"
  by pat_completeness auto
termination
  by (relation "measure (\<lambda>(m, p, s). length s)") auto

declare gsub.simps [simp del]

text \<open>\<open>s.replace(re, r)\<close> for a global \<open>re\<close>: the scan starts at the beginning.\<close>

abbreviation replace_all :: "matcher \<Rightarrow> jsstr \<Rightarrow> jsstr" where
  "replace_all m s \<equiv> gsub m None s"

subsection \<open>Matchers\<close>

text \<open>\<open>/\s+/g\<close> replaced by one space.\<close>

definition m_ws :: matcher where
  "m_ws p s =
     (let n = length (takeWhile is_space s) in if 0 < n then Some (n, '' '') else None)"

text \<open>
  First occurrence of a literal in a string: the lazy \<open>[\s\S]*?\<close> followed by the
  literal stops at the earliest place where the literal starts.
\<close>

fun find_sub :: "jsstr \<Rightarrow> jsstr \<Rightarrow> nat option" where
  "find_sub pat [] = (if pat = [] then Some 0 else None)"
| "find_sub pat (c # t) =
     (if starts_with pat (c # t) then Some 0 else map_option Suc (find_sub pat t))"

text \<open>\<open>/op[\s\S]*?cl/g\<close> replaced by the empty string (a delimited comment).\<close>

definition m_delim :: "jsstr \<Rightarrow> jsstr \<Rightarrow> matcher" where
  "m_delim op cl p s =
     (if starts_with op s then
        (case find_sub cl (drop (length op) s) of
           None \<Rightarrow> None
         | Some j \<Rightarrow> Some (length op + j + length cl, []))
      else None)"

text \<open>
  \<open>/\s*([P])\s*/g\<close> replaced by \<open>$1\<close>. Both runs are greedy; for a class \<open>P\<close>
  that contains no whitespace, backtracking the first run cannot help, since a shorter
  run is followed by whitespace.
\<close>

definition m_around :: "(char \<Rightarrow> bool) \<Rightarrow> matcher" where
  "m_around P p s =
     (let w = length (takeWhile is_space s) in
      case drop w s of
        [] \<Rightarrow> None
      | c # r \<Rightarrow> (if P c then Some (w + 1 + length (takeWhile is_space r), [c]) else None))"

text \<open>\<open>/([P])\s+/g\<close> replaced by \<open>$1\<close>.\<close>

definition m_after :: "(char \<Rightarrow> bool) \<Rightarrow> matcher" where
  "m_after P p s =
     (case s of
        [] \<Rightarrow> None
      | c # r \<Rightarrow>
          (let w = length (takeWhile is_space r) in
           if P c \<and> 0 < w then Some (1 + w, [c]) else None))"

text \<open>\<open>/\s+([P])/g\<close> replaced by \<open>$1\<close>.\<close>

definition m_before :: "(char \<Rightarrow> bool) \<Rightarrow> matcher" where
  "m_before P p s =
     (let w = length (takeWhile is_space s) in
      if 0 < w then
        (case drop w s of
           [] \<Rightarrow> None
         | c # r \<Rightarrow> (if P c then Some (w + 1, [c]) else None))
      else None)"

text \<open>\<open>/\s*lit/g\<close> replaced by \<open>lit\<close>, for a literal that starts with no whitespace.\<close>

definition m_ws_lit :: "jsstr \<Rightarrow> matcher" where
  "m_ws_lit lit p s =
     (let w = length (takeWhile is_space s) in
      if starts_with lit (drop w s) then Some (w + length lit, lit) else None)"

text \<open>\<open>/pat/g\<close> for a literal \<open>pat\<close>, replaced by \<open>rep\<close>.\<close>

definition m_lit :: "jsstr \<Rightarrow> jsstr \<Rightarrow> matcher" where
  "m_lit pat rep p s = (if starts_with pat s then Some (length pat, rep) else None)"

text \<open>\<open>/>\s+</g\<close> replaced by \<open>><\<close>.\<close>

definition m_tag_gap :: matcher where
  "m_tag_gap p s =
     (case s of
        [] \<Rightarrow> None
      | c # r \<Rightarrow>
          (let w = length (takeWhile is_space r) in
           if c = CHR ''>'' \<and> 0 < w \<and> starts_with ''<'' (drop w r)
           then Some (w + 2, ''><'') else None))"


text \<open>
  The comment pattern of the JavaScript minifier,
  \<open>/\/\*[\s\S]*?\*\/|([^\\:]|^)\/\/.*$/gm\<close>, replaced by the empty string.
  The first alternative is a block comment. The second is a line comment \<open>//\<close>
  preceded either by one character other than a backslash or a colon (which is part of
  the match and so is deleted with the comment), or by the start of a line; \<open>.*\<close>
  runs to the next line terminator, where \<open>$\<close> holds. Alternatives are tried in order.
\<close>

definition line_rest :: "jsstr \<Rightarrow> nat" where
  "line_rest s = length (takeWhile (\<lambda>c. \<not> is_line_term c) s)"

definition at_line_start :: "char option \<Rightarrow> bool" where
  "at_line_start p = (case p of None \<Rightarrow> True | Some c \<Rightarrow> is_line_term c)"

definition m_js_comment :: matcher where
  "m_js_comment p s =
     (case m_delim ''/*'' ''*/'' p s of
        Some km \<Rightarrow> Some km
      | None \<Rightarrow>
          (case s of
             [] \<Rightarrow> None
           | c # t \<Rightarrow>
               (if c \<noteq> CHR 0x5C \<and> c \<noteq> CHR '':'' \<and> starts_with ''//'' t
                then Some (3 + line_rest (drop 2 t), [])
                else if at_line_start p \<and> starts_with ''//'' s
                then Some (2 + line_rest (drop 2 s), [])
                else None)))"

subsection \<open>Properties of a matcher\<close>

text \<open>
  A matcher is \<^emph>\<open>shrinking\<close> when a replacement is never longer than the text it
  replaces (and a match never runs past the input); it \<^emph>\<open>keeps\<close> the characters
  satisfying \<open>Q\<close> when the replacement has the same such characters, in the same
  order, as the matched text.
\<close>

definition shrinking :: "matcher \<Rightarrow> bool" where
  "shrinking m \<longleftrightarrow> (\<forall>p s k r. m p s = Some (k, r) \<longrightarrow> length r \<le> k \<and> k \<le> length s)"

definition keeps :: "(char \<Rightarrow> bool) \<Rightarrow> matcher \<Rightarrow> bool" where
  "keeps Q m \<longleftrightarrow>
     (\<forall>p s k r. m p s = Some (k, r) \<longrightarrow> k \<le> length s \<and> filter Q r = filter Q (take k s))"

definition no_space_in :: "(char \<Rightarrow> bool) \<Rightarrow> bool" where
  "no_space_in P \<longleftrightarrow> (\<forall>c. P c \<longrightarrow> \<not> is_space c)"

abbreviation nonspace :: "char \<Rightarrow> bool" where
  "nonspace c \<equiv> \<not> is_space c"

abbreviation space_pair :: "char \<Rightarrow> char \<Rightarrow> bool" where
  "space_pair a b \<equiv> is_space a \<and> is_space b"

abbreviation space_next_to :: "(char \<Rightarrow> bool) \<Rightarrow> char \<Rightarrow> char \<Rightarrow> bool" where
  "space_next_to P a b \<equiv> (is_space a \<and> P b) \<or> (P a \<and> is_space b)"

text \<open>
  \<open>ws_del t s\<close>: \<open>t\<close> is \<open>s\<close> with some whitespace characters deleted. A matcher
  \<^emph>\<open>deletes whitespace\<close> when each replacement arises so from the text it replaces;
  a relation on neighbours is \<^emph>\<open>closed\<close> under deleting whitespace when a pair in
  the relation that a whitespace character separates already had a pair in the relation.
\<close>

inductive ws_del :: "jsstr \<Rightarrow> jsstr \<Rightarrow> bool" where
  ws_del_Nil: "ws_del [] []"
| ws_del_keep: "ws_del t s \<Longrightarrow> ws_del (c # t) (c # s)"
| ws_del_drop: "is_space c \<Longrightarrow> ws_del t s \<Longrightarrow> ws_del t (c # s)"

definition deletes_ws :: "matcher \<Rightarrow> bool" where
  "deletes_ws m \<longleftrightarrow> (\<forall>p s k r. m p s = Some (k, r) \<longrightarrow> k \<le> length s \<and> ws_del r (take k s))"

definition ws_closed :: "(char \<Rightarrow> char \<Rightarrow> bool) \<Rightarrow> bool" where
  "ws_closed R \<longleftrightarrow> (\<forall>a b x. is_space x \<longrightarrow> R a b \<longrightarrow> R a x \<or> R x b)"

subsection \<open>Characteristic equations of the scan\<close>

lemma gsub_Nil: "gsub m p [] = (case m p [] of None \<Rightarrow> [] | Some (k, r) \<Rightarrow> r)"
  by (simp add: gsub.simps split: option.splits)

lemma gsub_no_match: "m p (c # s) = None \<Longrightarrow> gsub m p (c # s) = c # gsub m (Some c) s"
  by (simp add: gsub.simps)

lemma gsub_match:
  "m p (c # s) = Some (Suc k, r) \<Longrightarrow>
   gsub m p (c # s) = r @ gsub m (Some (last (take (Suc k) (c # s)))) (drop k s)"
  by (simp add: gsub.simps)

lemma gsub_empty_match:
  "m p (c # s) = Some (0, r) \<Longrightarrow> gsub m p (c # s) = r @ c # gsub m (Some c) s"
  by (simp add: gsub.simps)

subsection \<open>The scan: induction rule, length and kept characters\<close>


lemma gsub_induct [case_names nil_none nil_match no_match empty_match match]:
  assumes nil_none: "\<And>p. m p [] = None \<Longrightarrow> P p []"
    and nil_match: "\<And>p k r. m p [] = Some (k, r) \<Longrightarrow> P p []"
    and no_match: "\<And>p c s. m p (c # s) = None \<Longrightarrow> P (Some c) s \<Longrightarrow> P p (c # s)"
    and empty_match: "\<And>p c s r. m p (c # s) = Some (0, r) \<Longrightarrow> P (Some c) s \<Longrightarrow> P p (c # s)"
    and match: "\<And>p c s k r. m p (c # s) = Some (Suc k, r) \<Longrightarrow>
       P (Some (last (take (Suc k) (c # s)))) (drop k s) \<Longrightarrow> P p (c # s)"
  shows "P p s"
proof (induction s arbitrary: p rule: length_induct)
  case (1 s)
  show ?case
  proof (cases s)
    case Nil
    then show ?thesis
      by (cases "m p []") (auto intro: nil_none nil_match)
  next
    case (Cons c s')
    then have ih: "\<And>t q. length t \<le> length s' \<Longrightarrow> P q t"
      using "1.IH" by auto
    show ?thesis
    proof (cases "m p s")
      case None
      with Cons ih show ?thesis by (auto intro: no_match)
    next
      case (Some kr)
      then obtain k r where m: "m p (c # s') = Some (k, r)" using Cons by (cases kr) auto
      show ?thesis
        using m Cons ih by (cases k) (auto intro: empty_match match)
    qed
  qed
qed

lemma shrinkingD:
  "shrinking m \<Longrightarrow> m p s = Some (k, r) \<Longrightarrow> length r \<le> k \<and> k \<le> length s"
  unfolding shrinking_def by blast

lemma keepsD:
  "keeps Q m \<Longrightarrow> m p s = Some (k, r) \<Longrightarrow> k \<le> length s \<and> filter Q r = filter Q (take k s)"
  unfolding keeps_def by blast

lemmas gsub_eqs = gsub_Nil gsub_no_match gsub_match gsub_empty_match

lemma gsub_length: "shrinking m \<Longrightarrow> length (gsub m p s) \<le> length s"
proof (induction p s rule: gsub_induct [where m = m])
  case (match p c s k r)
  then have "length r \<le> Suc k" "Suc k \<le> Suc (length s)" by (auto dest: shrinkingD)
  with match show ?case by (simp add: gsub_match)
qed (auto simp: gsub_eqs dest: shrinkingD)

lemma gsub_filter: "keeps Q m \<Longrightarrow> filter Q (gsub m p s) = filter Q s"
proof (induction p s rule: gsub_induct [where m = m])
  case (match p c s k r)
  then have "filter Q r = filter Q (take (Suc k) (c # s))" by (auto dest: keepsD)
  with match show ?case
    by (simp add: gsub_match) (metis append_take_drop_id filter_append)
qed (auto simp: gsub_eqs dest: keepsD)


subsection \<open>Deleting whitespace\<close>

inductive_cases ws_del_NilE: "ws_del t []"

inductive_cases ws_del_ConsE: "ws_del t (c # s)"

lemma ws_del_refl [intro]: "ws_del s s"
  by (induction s) (auto intro: ws_del.intros)

lemma ws_del_Nil_iff [simp]: "ws_del t [] \<longleftrightarrow> t = []"
  by (auto elim: ws_del_NilE intro: ws_del.intros)

lemma ws_del_all_spaces: "\<forall>x\<in>set ws. is_space x \<Longrightarrow> ws_del [] ws"
  by (induction ws) (auto intro: ws_del.intros)

lemma ws_del_trans: "ws_del t s \<Longrightarrow> ws_del u t \<Longrightarrow> ws_del u s"
proof (induction t s arbitrary: u rule: ws_del.induct)
  case (ws_del_keep t s c)
  from ws_del_keep.prems show ?case
    by (rule ws_del_ConsE) (auto intro: ws_del.intros ws_del_keep.IH)
qed (auto intro: ws_del.intros)

lemma ws_del_append: "ws_del t s \<Longrightarrow> ws_del t' s' \<Longrightarrow> ws_del (t @ t') (s @ s')"
  by (induction rule: ws_del.induct) (auto intro: ws_del.intros)

lemma ws_del_spaces: "\<forall>x\<in>set ws. is_space x \<Longrightarrow> ws_del t s \<Longrightarrow> ws_del t (ws @ s)"
  by (induction ws) (auto intro: ws_del.intros)

lemma ws_del_rev: "ws_del t s \<Longrightarrow> ws_del (rev t) (rev s)"
proof (induction rule: ws_del.induct)
  case (ws_del_drop c t s)
  have "ws_del [] [c]" using ws_del_drop.hyps(1) by (auto intro: ws_del.intros)
  from ws_del_append [OF ws_del_drop.IH this] show ?case by simp
qed (auto intro: ws_del_append ws_del.intros)

lemma ws_del_dropWhile: "ws_del (dropWhile is_space s) s"
  by (induction s) (auto intro: ws_del.intros)

lemma ws_del_set: "ws_del t s \<Longrightarrow> set t \<subseteq> set s"
  by (induction rule: ws_del.induct) auto

lemma ws_del_hd:
  "ws_del t s \<Longrightarrow> ws_closed R \<Longrightarrow> \<not> adjacent R (c # s) \<Longrightarrow> t \<noteq> [] \<Longrightarrow> \<not> R c (hd t)"
proof (induction arbitrary: c rule: ws_del.induct)
  case (ws_del_drop x t s)
  then have "\<not> R c x" "\<not> R x (hd t)" by (auto simp: adjacent_Cons)
  with ws_del_drop.hyps(1) ws_del_drop.prems(1) show ?case unfolding ws_closed_def by blast
qed (auto simp: adjacent_Cons)

lemma ws_del_adjacent:
  "ws_del t s \<Longrightarrow> ws_closed R \<Longrightarrow> \<not> adjacent R s \<Longrightarrow> \<not> adjacent R t"
proof (induction rule: ws_del.induct)
  case (ws_del_keep t s c)
  then show ?case using ws_del_hd [OF ws_del_keep.hyps(1)] by (auto simp: adjacent_Cons)
qed (auto simp: adjacent_Cons)

lemma ws_closed_space_pair: "ws_closed space_pair"
  by (auto simp: ws_closed_def)

lemma ws_closed_space_next_to: "ws_closed (space_next_to P)"
  by (auto simp: ws_closed_def)

lemma gsub_ws_del: "deletes_ws m \<Longrightarrow> ws_del (gsub m p s) s"
proof (induction p s rule: gsub_induct [where m = m])
  case (nil_match p k r)
  then have "ws_del r (take k [])" unfolding deletes_ws_def by blast
  with nil_match show ?case by (simp add: gsub_Nil)
next
  case (no_match p c s)
  then show ?case by (auto simp: gsub_no_match intro: ws_del.intros)
next
  case (empty_match p c s r)
  then have "r = []" unfolding deletes_ws_def by fastforce
  with empty_match show ?case by (auto simp: gsub_empty_match intro: ws_del.intros)
next
  case (match p c s k r)
  then have "ws_del r (take (Suc k) (c # s))" unfolding deletes_ws_def by blast
  from ws_del_append [OF this match.IH [OF match.prems]] match.hyps
  show ?case by (simp add: gsub_match)
qed (simp add: gsub_Nil)

subsection \<open>Matchers: shape of a match\<close>


lemma take_length_takeWhile [ws_simps]: "take (length (takeWhile P s)) s = takeWhile P s"
  by (induction s) auto

lemma find_sub_Some: "find_sub pat t = Some j \<Longrightarrow> starts_with pat (drop j t)"
  by (induction pat t arbitrary: j rule: find_sub.induct) (auto split: if_splits)

lemma find_sub_bound: "find_sub pat t = Some j \<Longrightarrow> j + length pat \<le> length t"
  by (induction pat t arbitrary: j rule: find_sub.induct)
    (auto dest: starts_with_length split: if_splits)

lemma shrinking_m_delim: "shrinking (m_delim op cl)"
  by (auto simp: shrinking_def m_delim_def dest!: find_sub_bound starts_with_length
      split: if_splits option.splits)


lemma ws_split:
  obtains ws rest where "s = ws @ rest" "\<forall>x\<in>set ws. is_space x"
    "rest = [] \<or> \<not> is_space (hd rest)" "takeWhile is_space s = ws" "dropWhile is_space s = rest"
proof
  show "s = takeWhile is_space s @ dropWhile is_space s" by simp
  show "\<forall>x\<in>set (takeWhile is_space s). is_space x" by (auto dest: set_takeWhileD)
  show "dropWhile is_space s = [] \<or> \<not> is_space (hd (dropWhile is_space s))"
    using dropWhile_space_hd by blast
qed auto

lemma m_around_Some:
  assumes "m_around P p s = Some (k, r)"
  obtains ws c ws2 rest where "s = ws @ c # ws2 @ rest" "\<forall>x\<in>set ws. is_space x"
    "\<not> is_space c" "P c" "\<forall>x\<in>set ws2. is_space x" "rest = [] \<or> \<not> is_space (hd rest)"
    "r = [c]" "k = length ws + 1 + length ws2"
proof -
  obtain ws t where s: "s = ws @ t" "\<forall>x\<in>set ws. is_space x" "t = [] \<or> \<not> is_space (hd t)"
    "takeWhile is_space s = ws" "dropWhile is_space s = t"
    by (rule ws_split)
  from assms s(4,5) obtain c u where t: "t = c # u" "P c" "r = [c]"
    "k = length ws + 1 + length (takeWhile is_space u)"
    by (auto simp: m_around_def Let_def ws_simps split: list.splits if_splits)
  obtain ws2 rest where u: "u = ws2 @ rest" "\<forall>x\<in>set ws2. is_space x"
    "rest = [] \<or> \<not> is_space (hd rest)" "takeWhile is_space u = ws2"
    by (rule ws_split)
  show ?thesis
    by (rule that [of ws c ws2 rest]) (use s(1-3) t u(1-3) in \<open>auto simp: takeWhile_eq_Nil_iff\<close>)
qed

lemma shrinking_m_around: "shrinking (m_around P)"
  unfolding shrinking_def by (auto elim!: m_around_Some)

lemma keeps_m_around: "keeps nonspace (m_around P)"
  unfolding keeps_def by (auto elim!: m_around_Some simp: filter_empty_conv)

lemma m_ws_Some:
  assumes "m_ws p s = Some (k, r)"
  obtains ws rest where "s = ws @ rest" "ws \<noteq> []" "\<forall>x\<in>set ws. is_space x"
    "rest = [] \<or> \<not> is_space (hd rest)" "r = '' ''" "k = length ws"
proof -
  obtain ws rest where s: "s = ws @ rest" "\<forall>x\<in>set ws. is_space x"
    "rest = [] \<or> \<not> is_space (hd rest)" "takeWhile is_space s = ws"
    by (rule ws_split)
  from assms s(4) have "ws \<noteq> []" "r = '' ''" "k = length ws"
    by (auto simp: m_ws_def Let_def split: if_splits)
  with s show ?thesis using that by blast
qed

lemma m_after_Some:
  assumes "m_after P p s = Some (k, r)"
  obtains c ws rest where "s = c # ws @ rest" "P c" "ws \<noteq> []" "\<forall>x\<in>set ws. is_space x"
    "rest = [] \<or> \<not> is_space (hd rest)" "r = [c]" "k = 1 + length ws"
proof -
  from assms obtain c t where t: "s = c # t" "P c" "takeWhile is_space t \<noteq> []" "r = [c]"
    "k = 1 + length (takeWhile is_space t)"
    by (auto simp: m_after_def Let_def split: list.splits if_splits)
  obtain ws rest where u: "t = ws @ rest" "\<forall>x\<in>set ws. is_space x"
    "rest = [] \<or> \<not> is_space (hd rest)" "takeWhile is_space t = ws"
    by (rule ws_split)
  show ?thesis by (rule that [of c ws rest]) (use t u in auto)
qed

lemma m_before_Some:
  assumes "m_before P p s = Some (k, r)"
  obtains ws c rest where "s = ws @ c # rest" "ws \<noteq> []" "\<forall>x\<in>set ws. is_space x"
    "\<not> is_space c" "P c" "r = [c]" "k = length ws + 1"
proof -
  obtain ws t where s: "s = ws @ t" "\<forall>x\<in>set ws. is_space x" "t = [] \<or> \<not> is_space (hd t)"
    "takeWhile is_space s = ws" "dropWhile is_space s = t"
    by (rule ws_split)
  from assms s(4,5) obtain c u where "t = c # u" "P c" "r = [c]" "ws \<noteq> []" "k = length ws + 1"
    by (auto simp: m_before_def Let_def ws_simps split: list.splits if_splits)
  with s show ?thesis using that by auto
qed

lemma m_ws_lit_Some:
  assumes "m_ws_lit lit p s = Some (k, r)"
  obtains ws rest where "s = ws @ lit @ rest" "\<forall>x\<in>set ws. is_space x" "r = lit"
    "k = length ws + length lit"
proof -
  obtain ws t where s: "s = ws @ t" "\<forall>x\<in>set ws. is_space x"
    "takeWhile is_space s = ws" "dropWhile is_space s = t"
    by (rule ws_split)
  from assms s(3,4) have "starts_with lit t" "r = lit" "k = length ws + length lit"
    by (auto simp: m_ws_lit_def Let_def ws_simps split: if_splits)
  with s show ?thesis using that by (auto simp: starts_with_iff)
qed

lemma m_tag_gap_Some:
  assumes "m_tag_gap p s = Some (k, r)"
  obtains ws rest where "s = CHR ''>'' # ws @ CHR ''<'' # rest" "ws \<noteq> []"
    "\<forall>x\<in>set ws. is_space x" "r = ''><''" "k = length ws + 2"
proof -
  from assms obtain t where t: "s = CHR ''>'' # t" "takeWhile is_space t \<noteq> []"
    "starts_with ''<'' (dropWhile is_space t)" "r = ''><''" "k = length (takeWhile is_space t) + 2"
    by (auto simp: m_tag_gap_def Let_def ws_simps split: list.splits if_splits)
  obtain ws u where u: "t = ws @ u" "\<forall>x\<in>set ws. is_space x"
    "takeWhile is_space t = ws" "dropWhile is_space t = u"
    by (rule ws_split)
  from t u obtain rest where "u = CHR ''<'' # rest" by (auto simp: starts_with_iff)
  with t u show ?thesis using that by auto
qed

lemma shrinking_m_ws: "shrinking m_ws"
  unfolding shrinking_def by (auto elim!: m_ws_Some simp: Suc_le_eq)

lemma keeps_m_ws: "keeps nonspace m_ws"
  unfolding keeps_def by (auto elim!: m_ws_Some simp: filter_empty_conv)

lemma shrinking_m_after: "shrinking (m_after P)"
  unfolding shrinking_def by (auto elim!: m_after_Some)

lemma keeps_m_after: "no_space_in P \<Longrightarrow> keeps nonspace (m_after P)"
  unfolding keeps_def no_space_in_def by (auto elim!: m_after_Some simp: filter_empty_conv)

lemma shrinking_m_before: "shrinking (m_before P)"
  unfolding shrinking_def by (auto elim!: m_before_Some)

lemma keeps_m_before: "keeps nonspace (m_before P)"
  unfolding keeps_def by (auto elim!: m_before_Some simp: filter_empty_conv)

lemma shrinking_m_ws_lit: "shrinking (m_ws_lit lit)"
  unfolding shrinking_def by (auto elim!: m_ws_lit_Some)

lemma keeps_m_ws_lit: "keeps nonspace (m_ws_lit lit)"
  unfolding keeps_def by (auto elim!: m_ws_lit_Some simp: filter_empty_conv)

lemma shrinking_m_lit: "length rep \<le> length pat \<Longrightarrow> shrinking (m_lit pat rep)"
  by (auto simp: shrinking_def m_lit_def dest: starts_with_length split: if_splits)

lemma shrinking_m_tag_gap: "shrinking m_tag_gap"
  unfolding shrinking_def by (auto elim!: m_tag_gap_Some)

lemma keeps_m_tag_gap: "keeps nonspace m_tag_gap"
  unfolding keeps_def by (auto elim!: m_tag_gap_Some simp: filter_empty_conv)

lemma gsub_m_ws_nonspace: "\<not> is_space c \<Longrightarrow> gsub m_ws p (c # s) = c # gsub m_ws (Some c) s"
  by (rule gsub_no_match) (simp add: m_ws_def)


lemma gsub_m_ws_result:
  "\<not> adjacent space_pair (gsub m_ws p s) \<and> (\<forall>c\<in>set (gsub m_ws p s). is_space c \<longrightarrow> c = CHR 0x20)"
proof (induction p s rule: gsub_induct [where m = m_ws])
  case (no_match p c s)
  from no_match.hyps have "\<not> is_space c" by (simp add: m_ws_def split: if_splits)
  with no_match show ?case
    by (cases "gsub m_ws (Some c) s") (auto simp: gsub_no_match adjacent_Cons)
next
  case (match p c s k r)
  from match.hyps(1) obtain ws rest where d: "c # s = ws @ rest" "ws \<noteq> []"
    "rest = [] \<or> \<not> is_space (hd rest)" "r = '' ''" "Suc k = length ws"
    by (rule m_ws_Some)
  then have rest: "drop k s = rest" by (cases ws) auto
  have "gsub m_ws p (c # s) = CHR 0x20 # gsub m_ws (Some (last (take (Suc k) (c # s)))) rest"
    using match.hyps(1) d(4) rest by (simp add: gsub_match)
  moreover have "gsub m_ws q rest = [] \<or> \<not> is_space (hd (gsub m_ws q rest))" for q
    using d(3) by (cases rest) (auto simp: gsub_Nil m_ws_def gsub_m_ws_nonspace)
  ultimately show ?case using match.IH rest by (auto simp: adjacent_Cons)
qed (auto simp: gsub_Nil m_ws_def split: if_splits)


lemma line_rest_le: "line_rest s \<le> length s"
  by (simp add: line_rest_def length_takeWhile_le)

lemma shrinking_m_js_comment: "shrinking m_js_comment"
proof -
  have "k \<le> length s" if "m_js_comment p s = Some (k, r)" for p s k r
  proof (cases "m_delim ''/*'' ''*/'' p s")
    case (Some km)
    with that shrinking_m_delim show ?thesis by (auto simp: m_js_comment_def dest: shrinkingD)
  next
    case None
    with that show ?thesis
      using line_rest_le [of "drop 2 s"]
      by (auto simp: m_js_comment_def starts_with_iff line_rest_le split: list.splits if_splits)
  qed
  moreover have "r = []" if "m_js_comment p s = Some (k, r)" for p s k r
    using that by (auto simp: m_js_comment_def m_delim_def split: list.splits if_splits option.splits)
  ultimately show ?thesis unfolding shrinking_def by fastforce
qed

subsection \<open>Results of the whitespace patterns\<close>


lemma m_around_nonspace_hd:
  "\<not> is_space y \<Longrightarrow> m_around P q (y # r) = (if P y then Some (1 + length (takeWhile is_space r), [y]) else None)"
  by (simp add: m_around_def Let_def)

lemma gsub_m_around_nonspace:
  "\<not> is_space y \<Longrightarrow> \<exists>out. gsub (m_around P) q (y # r) = y # out"
proof (cases "P y")
  case True
  assume y: "\<not> is_space y"
  with True have "m_around P q (y # r) = Some (Suc (length (takeWhile is_space r)), [y])"
    by (simp add: m_around_nonspace_hd)
  then show ?thesis by (simp add: gsub_match)
next
  case False
  assume y: "\<not> is_space y"
  with False show ?thesis by (simp add: m_around_nonspace_hd gsub_no_match)
qed

lemma m_around_None:
  "dropWhile is_space t = [] \<or> \<not> P (hd (dropWhile is_space t)) \<Longrightarrow> m_around P q t = None"
  unfolding m_around_def Let_def takeWhile_dropWhile_length
  by (cases "dropWhile is_space t") (simp_all del: dropWhile_eq_Nil_conv)

text \<open>A run of whitespace not followed by a class character is copied.\<close>

lemma gsub_m_around_spaces:
  assumes "\<forall>x\<in>set ws. is_space x" "u = [] \<or> \<not> is_space (hd u) \<and> \<not> P (hd u)"
  shows "gsub (m_around P) q (ws @ u) = ws @ gsub (m_around P) (case ws of [] \<Rightarrow> q | _ \<Rightarrow> Some (last ws)) u"
  using assms(1)
proof (induction ws arbitrary: q)
  case (Cons x ws)
  have "dropWhile is_space (x # ws @ u) = u"
    using Cons.prems assms(2) by (cases u) auto
  then have "m_around P q (x # ws @ u) = None"
    using assms(2) by (intro m_around_None) auto
  then have "gsub (m_around P) q (x # ws @ u) = x # gsub (m_around P) (Some x) (ws @ u)"
    by (simp add: gsub_no_match)
  with Cons show ?case by (cases ws) auto
qed simp

lemma gsub_m_around_result:
  "no_space_in P \<Longrightarrow> \<not> adjacent (space_next_to P) (gsub (m_around P) q t)"
proof (induction q t rule: gsub_induct [where m = "m_around P"])
  case (nil_none p)
  then show ?case by (simp add: gsub_Nil)
next
  case (nil_match p k r)
  then show ?case by (simp add: m_around_def Let_def)
next
  case (empty_match p c s r)
  then show ?case by (auto elim: m_around_Some)
next
  case (match p c s k r)
  from match.hyps obtain ws x ws2 rest where d: "c # s = ws @ x # ws2 @ rest"
    "\<forall>x\<in>set ws. is_space x" "\<not> is_space x" "P x" "\<forall>x\<in>set ws2. is_space x"
    "rest = [] \<or> \<not> is_space (hd rest)" "r = [x]" "Suc k = length ws + 1 + length ws2"
    by (rule m_around_Some)
  then have rest: "drop k s = rest"
    by (metis append_Cons append_eq_conv_conj append_take_drop_id drop_Suc_Cons length_append
        add.assoc Suc_eq_plus1 add.commute drop_drop drop_append)
  let ?q = "Some (last (take (Suc k) (c # s)))"
  have out: "gsub (m_around P) p (c # s) = x # gsub (m_around P) ?q rest"
    using match.hyps d(7) rest by (simp add: gsub_match)
  have tail: "gsub (m_around P) ?q rest = [] \<or> \<not> is_space (hd (gsub (m_around P) ?q rest))"
  proof (cases rest)
    case Nil
    then show ?thesis by (simp add: gsub_Nil m_around_None)
  next
    case (Cons y rest')
    with d(6) have "\<not> is_space y" by simp
    with Cons show ?thesis using gsub_m_around_nonspace [of y P ?q rest'] by auto
  qed
  from match.IH match.prems rest have "\<not> adjacent (space_next_to P) (gsub (m_around P) ?q rest)"
    by simp
  with out tail d(3) show ?case by (auto simp: adjacent_Cons)
next
  case (no_match p c s)
  from no_match.hyps no_match.prems have c: "\<not> P c"
    by (cases "is_space c") (auto simp: m_around_nonspace_hd no_space_in_def split: if_splits)
  have hd_ok: "is_space c \<Longrightarrow> gsub (m_around P) (Some c) s = [] \<or> \<not> P (hd (gsub (m_around P) (Some c) s))"
  proof -
    assume sp: "is_space c"
    obtain ws u where s: "s = ws @ u" "\<forall>x\<in>set ws. is_space x" "u = [] \<or> \<not> is_space (hd u)"
      "dropWhile is_space s = u"
      by (rule ws_split)
    have "dropWhile is_space (c # s) = u" using sp s(4) by simp
    with no_match.hyps have u: "u = [] \<or> \<not> P (hd u)"
      by (cases u) (auto simp: m_around_def Let_def ws_simps split: if_splits)
    let ?q = "case ws of [] \<Rightarrow> Some c | _ \<Rightarrow> Some (last ws)"
    have "u = [] \<or> \<not> is_space (hd u) \<and> \<not> P (hd u)" using s(3) u by auto
    from gsub_m_around_spaces [of ws u P "Some c", OF s(2) this] s(1)
    have o: "gsub (m_around P) (Some c) s = ws @ gsub (m_around P) ?q u" by simp
    show ?thesis
    proof (cases ws)
      case (Cons w ws')
      with s(2) no_match.prems have "\<not> P w" unfolding no_space_in_def by auto
      with o Cons show ?thesis by simp
    next
      case Nil
      show ?thesis
      proof (cases u)
        case Nil
        with o \<open>ws = []\<close> show ?thesis by (simp add: gsub_Nil m_around_None)
      next
        case (Cons y u')
        with s(3) u have "\<not> is_space y" "\<not> P y" by auto
        with o \<open>ws = []\<close> Cons show ?thesis using gsub_m_around_nonspace [of y P ?q u'] by auto
      qed
    qed
  qed
  from no_match.IH no_match.prems have "\<not> adjacent (space_next_to P) (gsub (m_around P) (Some c) s)"
    by simp
  with c hd_ok no_match.hyps no_match.prems show ?case
    by (auto simp: gsub_no_match adjacent_Cons no_space_in_def)
qed


lemma gsub_m_ws_fixed:
  "\<not> adjacent space_pair t \<Longrightarrow> set t \<inter> Collect is_space \<subseteq> {CHR 0x20} \<Longrightarrow> gsub m_ws p t = t"
proof (induction p t rule: gsub_induct [where m = m_ws])
  case (nil_match p k r)
  then show ?case by (simp add: m_ws_def)
next
  case (no_match p c s)
  from no_match.prems(1) have "\<not> adjacent space_pair s" by (cases s) (auto simp: adjacent_Cons)
  moreover from no_match.prems(2) have "set s \<inter> Collect is_space \<subseteq> {CHR 0x20}" by auto
  ultimately have "gsub m_ws (Some c) s = s" by (rule no_match.IH)
  with no_match.hyps show ?case by (simp add: gsub_no_match)
next
  case (empty_match p c s r)
  then show ?case by (auto elim: m_ws_Some)
next
  case (match p c s k r)
  from match.hyps obtain ws rest where d: "c # s = ws @ rest" "ws \<noteq> []"
    "\<forall>x\<in>set ws. is_space x" "r = '' ''" "Suc k = length ws"
    by (rule m_ws_Some)
  have "ws = [c]"
  proof (cases ws)
    case (Cons w ws')
    with d(1) have "w = c" by simp
    show ?thesis
    proof (cases ws')
      case (Cons w' ws'')
      with \<open>ws = w # ws'\<close> d(1) d(3) match.prems(1) show ?thesis by (auto simp: adjacent_Cons)
    qed (use Cons \<open>w = c\<close> in simp)
  qed (use d(2) in simp)
  with d match.prems(2) have c: "c = CHR 0x20" and k: "k = 0" by auto
  from match.prems(1) have "\<not> adjacent space_pair s" by (cases s) (auto simp: adjacent_Cons)
  moreover from match.prems(2) have "set s \<inter> Collect is_space \<subseteq> {CHR 0x20}" by auto
  ultimately have "gsub m_ws (Some c) s = s" using match.IH k by simp
  moreover have "gsub m_ws p (c # s) = '' '' @ gsub m_ws (Some c) s"
    using match.hyps d(4) k by (simp add: gsub_match)
  ultimately show ?case using c by simp
qed (simp add: gsub_Nil)


subsection \<open>Whitespace deletion by the matchers and by trim\<close>

lemma deletes_ws_m_around: "deletes_ws (m_around P)"
  unfolding deletes_ws_def
proof (intro allI impI conjI)
  fix p s k r assume m: "m_around P p s = Some (k, r)"
  then show "k \<le> length s" by (auto elim!: m_around_Some)
  from m show "ws_del r (take k s)"
  proof (rule m_around_Some)
    fix ws c ws2 rest
    assume "s = ws @ c # ws2 @ rest" "\<forall>x\<in>set ws. is_space x" "\<forall>x\<in>set ws2. is_space x"
      "r = [c]" "k = length ws + 1 + length ws2"
    then show ?thesis
      by (auto intro!: ws_del_spaces ws_del_keep ws_del_all_spaces)
  qed
qed

lemma gsub_m_after_id:
  "\<not> adjacent (\<lambda>a b. P a \<and> is_space b) t \<Longrightarrow> gsub (m_after P) p t = t"
proof (induction t arbitrary: p)
  case (Cons c t)
  have "m_after P p (c # t) = None"
    using Cons.prems by (cases t) (auto simp: m_after_def Let_def)
  with Cons show ?case by (auto simp: gsub_no_match adjacent_Cons)
qed (simp add: gsub_Nil m_after_def)

lemma gsub_m_before_id:
  "\<not> adjacent (\<lambda>a b. is_space a \<and> P b) t \<Longrightarrow> gsub (m_before P) p t = t"
proof (induction t arbitrary: p)
  case (Cons c t)
  have "m_before P p (c # t) = None"
  proof (rule ccontr)
    assume "m_before P p (c # t) \<noteq> None"
    then obtain k r where "m_before P p (c # t) = Some (k, r)" by auto
    then obtain ws d rest where "c # t = ws @ d # rest" "ws \<noteq> []" "\<forall>x\<in>set ws. is_space x" "P d"
      by (rule m_before_Some)
    then have "adjacent (\<lambda>a b. is_space a \<and> P b) (c # t)"
      by (auto simp: adjacent_append)
    with Cons.prems show False by simp
  qed
  with Cons show ?case by (auto simp: gsub_no_match adjacent_Cons)
qed (simp add: gsub_Nil m_before_def)

lemma js_trim_ws_del: "ws_del (js_trim s) s"
proof -
  let ?d = "dropWhile is_space s"
  have "ws_del (rev (dropWhile is_space (rev ?d))) (rev (rev ?d))"
    by (intro ws_del_rev ws_del_dropWhile)
  then show ?thesis unfolding js_trim_def by (auto intro: ws_del_trans ws_del_dropWhile)
qed

lemma last_dropWhile: "dropWhile P xs \<noteq> [] \<Longrightarrow> last (dropWhile P xs) = last xs"
  by (induction xs) auto

lemma js_trim_ends: "js_trim s = [] \<or> \<not> is_space (hd (js_trim s)) \<and> \<not> is_space (last (js_trim s))"
proof (cases "js_trim s = []")
  case False
  let ?d = "dropWhile is_space s"
  let ?e = "dropWhile is_space (rev ?d)"
  from False have e: "?e \<noteq> []" by (simp add: js_trim_def)
  then have d: "?d \<noteq> []" by (cases ?d) auto
  have "\<not> is_space (last (js_trim s))"
    using e dropWhile_space_hd [of "rev ?d"] by (simp add: js_trim_def last_rev)
  moreover have "hd (js_trim s) = hd ?d"
    using e d by (simp add: js_trim_def hd_rev last_dropWhile last_rev)
  ultimately show ?thesis using d dropWhile_space_hd [of s] by simp
qed simp


subsection \<open>The comment pattern on a line without other slashes\<close>

lemma m_js_comment_no_slash:
  "x \<noteq> CHR ''/'' \<Longrightarrow> y \<noteq> CHR ''/'' \<Longrightarrow> m_js_comment p (x # y # s) = None"
  by (simp add: m_js_comment_def m_delim_def)

lemma gsub_js_comment_prefix:
  "CHR ''/'' \<notin> set a \<Longrightarrow> c \<noteq> CHR ''/'' \<Longrightarrow>
   gsub m_js_comment p (a @ c # s) = a @ gsub m_js_comment (if a = [] then p else Some (last a)) (c # s)"
proof (induction a arbitrary: p)
  case (Cons x a)
  have "m_js_comment p (x # hd (a @ [c]) # tl (a @ c # s)) = None"
    using Cons.prems by (intro m_js_comment_no_slash) (auto simp: hd_append split: if_splits dest: hd_in_set)
  then have "m_js_comment p (x # a @ c # s) = None" by (cases a) simp_all
  with Cons show ?case by (simp add: gsub_no_match)
qed simp

lemma line_rest_append: "\<forall>x\<in>set t. \<not> is_line_term x \<Longrightarrow> u = [] \<or> is_line_term (hd u) \<Longrightarrow> line_rest (t @ u) = length t"
  by (induction t) (cases u, auto simp: line_rest_def)

end
