(* ===== verification/Minify.thy ===== *)
theory Minify
  imports Regex
begin

text \<open>
  The text minifiers of \<open>src/build-simple.js\<close> (\<open>minifyFile\<close>, lines 82--129): each is a
  fixed chain of global \<open>replace\<close> calls, modelled step by step in the source's order
  with the matchers of \<^theory_text>\<open>Regex\<close>, followed by \<open>trim()\<close> for CSS and JavaScript.
  \<open>minify_text\<close> is the \<open>switch\<close> on the file type, and \<open>minified_content\<close> the
  guard of line 122: the minified text is written back only when it is shorter.
  The lemmas show that no minifier ever lengthens its input, that the JavaScript
  minifier removes nothing but whitespace once comments are gone, that whitespace is
  collapsed to single spaces and that no whitespace is left between two HTML tags; they
  characterise the spacing of the JavaScript output, show that lines 115 and 116 never
  change the text and that the comment step deletes the character before \<open>//\<close>;
  worked examples evaluate where the regular expressions change the meaning of a page.
\<close>

subsection \<open>Character classes of the patterns\<close>

text \<open>\<open>[{}|:;,]\<close> of line 101.\<close>

definition css_syntax :: "char \<Rightarrow> bool" where
  "css_syntax c \<longleftrightarrow> c \<in> set ''{}|:;,''"

text \<open>\<open>[=+\-*/%!&|^~<>?;:,{}()\[\]]\<close> of line 114.\<close>

definition js_operator :: "char \<Rightarrow> bool" where
  "js_operator c \<longleftrightarrow> c \<in> set ''=+-*/%!&|^~<>?;:,{}()[]''"

text \<open>\<open>[;{}\[\](),]\<close> of lines 115 and 116.\<close>

definition js_syntax :: "char \<Rightarrow> bool" where
  "js_syntax c \<longleftrightarrow> c \<in> set '';{}[](),''"

subsection \<open>The three minifiers\<close>

definition minify_html :: "jsstr \<Rightarrow> jsstr" where
  "minify_html content =
     (let s1 = replace_all (m_delim ''<!--'' ''-->'') content;
          s2 = replace_all m_ws s1
      in replace_all m_tag_gap s2)"

definition minify_css :: "jsstr \<Rightarrow> jsstr" where
  "minify_css content =
     (let s1 = replace_all (m_delim ''/*'' ''*/'') content;
          s2 = replace_all m_ws s1;
          s3 = replace_all (m_around css_syntax) s2;
          s4 = replace_all (m_lit '';}'' ''}'') s3;
          s5 = replace_all (m_ws_lit ''!important'') s4;
          s6 = replace_all (m_around (\<lambda>c. c = CHR ''{'')) s5;
          s7 = replace_all (m_around (\<lambda>c. c = CHR ''}'')) s6
      in js_trim s7)"

definition minify_js :: "jsstr \<Rightarrow> jsstr" where
  "minify_js content =
     (let s1 = replace_all m_js_comment content;
          s2 = replace_all m_ws s1;
          s3 = replace_all (m_around js_operator) s2;
          s4 = replace_all (m_after js_syntax) s3;
          s5 = replace_all (m_before js_syntax) s4
      in js_trim s5)"

text \<open>
  The \<open>switch (type)\<close> of lines 87--119; a type other than the three leaves
  \<open>minified = content\<close>.
\<close>

definition minify_text :: "string \<Rightarrow> jsstr \<Rightarrow> jsstr" where
  "minify_text type content =
     (if type = ''html'' then minify_html content
      else if type = ''css'' then minify_css content
      else if type = ''js'' then minify_js content
      else content)"

text \<open>
  Lines 121--125: the text written back to the file, or \<open>None\<close> when nothing is written.
\<close>

definition minified_content :: "string \<Rightarrow> jsstr \<Rightarrow> jsstr option" where
  "minified_content type content =
     (let minified = minify_text type content
      in if length minified < length content then Some minified else None)"

text \<open>Two HTML tags with only whitespace between them: \<open>>\<close>, whitespace, \<open><\<close>.\<close>

fun has_tag_gap :: "jsstr \<Rightarrow> bool" where
  "has_tag_gap [] = False"
| "has_tag_gap (c # s) =
     ((c = CHR ''>'' \<and> takeWhile is_space s \<noteq> [] \<and> starts_with ''<'' (dropWhile is_space s))
      \<or> has_tag_gap s)"

subsection \<open>Helper lemmas\<close>

lemma filter_dropWhile_space: "filter nonspace (dropWhile is_space s) = filter nonspace s"
  by (induction s) auto

lemma js_trim_length: "length (js_trim s) \<le> length s"
proof -
  have "length (dropWhile is_space (rev (dropWhile is_space s))) \<le> length s"
    by (metis length_dropWhile_le length_rev order_trans)
  then show ?thesis by (simp add: js_trim_def)
qed

lemma js_trim_filter: "filter nonspace (js_trim s) = filter nonspace s"
  by (simp add: js_trim_def rev_filter [symmetric] filter_dropWhile_space)

lemma no_space_in_js_syntax: "no_space_in js_syntax"
  by (auto simp: no_space_in_def js_syntax_def is_space_def)

lemma shrinking_semicolon_brace: "shrinking (m_lit '';}'' ''}'')"
  by (rule shrinking_m_lit) simp

lemma gsub_length_le: "shrinking m \<Longrightarrow> length t \<le> n \<Longrightarrow> length (gsub m p t) \<le> n"
  using gsub_length order_trans by blast

lemma js_trim_length_le: "length t \<le> n \<Longrightarrow> length (js_trim t) \<le> n"
  using js_trim_length order_trans by blast

lemma gsub_filter_eq: "keeps nonspace m \<Longrightarrow> filter nonspace t = u \<Longrightarrow> filter nonspace (gsub m p t) = u"
  using gsub_filter by metis

lemmas minify_shrinking =
  shrinking_m_delim shrinking_m_ws shrinking_m_around shrinking_m_after shrinking_m_before
  shrinking_m_ws_lit shrinking_semicolon_brace shrinking_m_tag_gap shrinking_m_js_comment

lemma gsub_m_tag_gap_spaces:
  "\<forall>x\<in>set ws. is_space x \<Longrightarrow> gsub m_tag_gap p (ws @ t) = ws @ gsub m_tag_gap (case ws of [] \<Rightarrow> p | _ \<Rightarrow> Some (last ws)) t"
proof (induction ws arbitrary: p)
  case (Cons x ws)
  then have "x \<noteq> CHR ''>''" by (auto simp: is_space_def)
  then have "gsub m_tag_gap p (x # ws @ t) = x # gsub m_tag_gap (Some x) (ws @ t)"
    by (intro gsub_no_match) (simp add: m_tag_gap_def)
  with Cons show ?case by (cases ws) auto
qed simp

lemma gsub_m_tag_gap_hd: "gsub m_tag_gap p (x # r) \<noteq> [] \<and> hd (gsub m_tag_gap p (x # r)) = x"
proof (cases "m_tag_gap p (x # r)")
  case None
  then show ?thesis by (simp add: gsub_no_match)
next
  case (Some kr)
  then obtain k q where m: "m_tag_gap p (x # r) = Some (k, q)" by (cases kr) auto
  then obtain ws rest where "x # r = CHR ''>'' # ws @ CHR ''<'' # rest" "q = ''><''"
    "k = length ws + 2"
    by (rule m_tag_gap_Some)
  with m show ?thesis by (simp add: gsub_match)
qed

lemma gsub_m_tag_gap_no_gap: "\<not> has_tag_gap (gsub m_tag_gap p t)"
proof (induction p t rule: gsub_induct [where m = m_tag_gap])
  case (nil_none p)
  then show ?case by (simp add: gsub_Nil)
next
  case (nil_match p k r)
  then show ?case by (simp add: m_tag_gap_def)
next
  case (empty_match p c s r)
  then show ?case by (auto elim: m_tag_gap_Some)
next
  case (match p c s k r)
  from match.hyps obtain ws rest where d: "c # s = CHR ''>'' # ws @ CHR ''<'' # rest"
    "r = ''><''" "Suc k = length ws + 2"
    by (rule m_tag_gap_Some)
  then have "drop k s = rest" by simp
  with match d show ?case by (simp add: gsub_match is_space_def)
next
  case (no_match p c s)
  obtain ws u where s: "s = ws @ u" "\<forall>x\<in>set ws. is_space x" "u = [] \<or> \<not> is_space (hd u)"
    "takeWhile is_space s = ws" "dropWhile is_space s = u"
    by (rule ws_split)
  let ?q = "case ws of [] \<Rightarrow> Some c | _ \<Rightarrow> Some (last ws)"
  have o: "gsub m_tag_gap (Some c) s = ws @ gsub m_tag_gap ?q u"
    using s(1,2) by (simp add: gsub_m_tag_gap_spaces)
  have gap: "\<not> (c = CHR ''>'' \<and> takeWhile is_space (gsub m_tag_gap (Some c) s) \<noteq> []
      \<and> starts_with ''<'' (dropWhile is_space (gsub m_tag_gap (Some c) s)))"
  proof (cases u)
    case Nil
    with o have "gsub m_tag_gap (Some c) s = ws" by (simp add: gsub_Nil m_tag_gap_def)
    moreover from s(2) have d: "dropWhile is_space ws = []" by simp
    ultimately show ?thesis by (simp add: d del: dropWhile_eq_Nil_conv)
  next
    case (Cons y u')
    with s(3) have y: "\<not> is_space y" by simp
    from gsub_m_tag_gap_hd [of ?q y u'] obtain o' where o': "gsub m_tag_gap ?q u = y # o'"
      using Cons by (cases "gsub m_tag_gap ?q u") auto
    show ?thesis
    proof
      assume a: "c = CHR ''>'' \<and> takeWhile is_space (gsub m_tag_gap (Some c) s) \<noteq> []
        \<and> starts_with ''<'' (dropWhile is_space (gsub m_tag_gap (Some c) s))"
      with o o' s(2) y have "ws \<noteq> []" "y = CHR ''<''" by auto
      with a s(4,5) Cons have "m_tag_gap p (c # s) \<noteq> None"
        by (simp add: m_tag_gap_def Let_def ws_simps)
      with no_match.hyps show False by simp
    qed
  qed
  from no_match.IH gap show ?case by (simp add: gsub_no_match no_match.hyps)
qed

lemma no_space_in_js_operator: "no_space_in js_operator"
  by (auto simp: no_space_in_def js_operator_def is_space_def)

lemma js_syntax_operator: "js_syntax c \<Longrightarrow> js_operator c"
  unfolding js_syntax_def js_operator_def by (simp, elim disjE, simp_all)

lemma js_syntax_steps_id:
  assumes "\<not> adjacent (space_next_to js_operator) t"
  shows "replace_all (m_before js_syntax) (replace_all (m_after js_syntax) t) = t"
proof -
  have "\<not> adjacent (\<lambda>a b. js_syntax a \<and> is_space b) t"
    using assms adjacent_mono [of _ t "space_next_to js_operator"] js_syntax_operator by blast
  then have a: "replace_all (m_after js_syntax) t = t" by (rule gsub_m_after_id)
  have "\<not> adjacent (\<lambda>a b. is_space a \<and> js_syntax b) t"
    using assms adjacent_mono [of _ t "space_next_to js_operator"] js_syntax_operator by blast
  then show ?thesis unfolding a by (rule gsub_m_before_id)
qed

section \<open>Properties of the minifiers\<close>

text \<open>
  C13. No minifier of \<open>build-simple.js\<close> ever makes a text longer: every replacement
  is at most as long as the text it replaces, and \<open>trim\<close> only removes characters.
  So the guard of line 122 only ever skips a write when nothing was removed.
\<close>

theorem minifiers_never_grow:
  "length (minify_html s) \<le> length s \<and> length (minify_css s) \<le> length s
   \<and> length (minify_js s) \<le> length s"
proof (intro conjI)
  show "length (minify_html s) \<le> length s"
    unfolding minify_html_def Let_def by (intro gsub_length_le minify_shrinking order_refl)
  show "length (minify_css s) \<le> length s"
    unfolding minify_css_def Let_def
    by (intro js_trim_length_le gsub_length_le minify_shrinking order_refl)
  show "length (minify_js s) \<le> length s"
    unfolding minify_js_def Let_def
    by (intro js_trim_length_le gsub_length_le minify_shrinking order_refl)
qed

text \<open>
  C14. Once comments are removed (line 112), the JavaScript minifier deletes only
  whitespace: the non-whitespace characters of its output are those of the comment-free
  text, in the same order.
\<close>

theorem minify_js_only_whitespace:
  "filter nonspace (minify_js s) = filter nonspace (replace_all m_js_comment s)"
  unfolding minify_js_def Let_def js_trim_filter
  by (intro gsub_filter_eq keeps_m_ws keeps_m_around keeps_m_before
      keeps_m_after [OF no_space_in_js_syntax] refl)

text \<open>
  C18. After the HTML minifier no tag is followed by whitespace and then by another tag
  (\<open>>\s+<\<close> never occurs in its output), whatever the input.
\<close>

theorem minify_html_no_tag_gap: "\<not> has_tag_gap (minify_html s)"
  unfolding minify_html_def Let_def by (rule gsub_m_tag_gap_no_gap)

text \<open>
  C19. After the CSS step of line 101 no whitespace character stands next to one of
  the characters \<open>{ } | : ; ,\<close>, and every other character is kept in order.
\<close>

theorem css_syntax_no_adjacent_space:
  "\<not> adjacent (space_next_to css_syntax) (replace_all (m_around css_syntax) s)
   \<and> filter nonspace (replace_all (m_around css_syntax) s) = filter nonspace s"
proof
  have "no_space_in css_syntax" by (auto simp: no_space_in_def css_syntax_def is_space_def)
  then show "\<not> adjacent (space_next_to css_syntax) (replace_all (m_around css_syntax) s)"
    by (rule gsub_m_around_result)
  show "filter nonspace (replace_all (m_around css_syntax) s) = filter nonspace s"
    by (intro gsub_filter keeps_m_around)
qed

text \<open>
  C20. The whitespace step \<open>replace(/\s+/g, ' ')\<close> (lines 92, 100, 113) leaves no
  two whitespace characters side by side, and every whitespace character it leaves is a
  plain space: tabs and line breaks are gone.
\<close>

theorem collapse_ws_single_space:
  "\<not> adjacent space_pair (replace_all m_ws s)
   \<and> set (replace_all m_ws s) \<inter> Collect is_space \<subseteq> {CHR 0x20}"
  using gsub_m_ws_result [of None s] by auto

text \<open>
  C15. The line-comment alternative of line 112, \<open>([^\\:]|^)\/\/.*$\<close>, includes the
  character before \<open>//\<close> in the match, and the replacement is empty: on a line
  \<open>a c // t\<close> whose code part \<open>a\<close> contains no slash, where \<open>c\<close> is not a backslash, a
  colon or a slash, the step keeps \<open>a\<close> and deletes \<open>c\<close> together with the comment,
  then continues after the comment at the line break. A statement that ends in \<open>;\<close>
  before a comment loses its semicolon.
\<close>

theorem js_comment_eats_preceding_char:
  assumes "CHR ''/'' \<notin> set a" "c \<notin> {CHR 0x5C, CHR '':'', CHR ''/''}"
    and "\<forall>x\<in>set t. \<not> is_line_term x" "u = [] \<or> is_line_term (hd u)"
  shows "replace_all m_js_comment (a @ c # ''//'' @ t @ u) = a @ gsub m_js_comment (Some (last (c # ''//'' @ t))) u"
proof -
  have "m_js_comment q (c # ''//'' @ t @ u) = Some (Suc (2 + length t), [])" for q
    using assms(2-4) by (simp add: m_js_comment_def m_delim_def line_rest_append)
  then have "gsub m_js_comment q (c # ''//'' @ t @ u) = gsub m_js_comment (Some (last (c # ''//'' @ t))) u" for q
    by (simp add: gsub_match)
  with assms(1,2) show ?thesis by (simp add: gsub_js_comment_prefix)
qed

lemma js_comment_eats_preceding_char_witness:
  "replace_all m_js_comment (''a=1;// c'' @ CHR 0x0A # ''b=2'') = ''a=1'' @ gsub m_js_comment (Some CHR ''c'') (CHR 0x0A # ''b=2'')"
  using js_comment_eats_preceding_char [of "''a=1''" "CHR '';''" "'' c''" "CHR 0x0A # ''b=2''"]
  by (simp add: is_line_term_def)

text \<open>
  C16. Spacing of the JavaScript minifier's output, for every input, string literals
  included: no two whitespace characters are adjacent, every whitespace character left
  is a plain space, no whitespace stands next to a character of the operator class of
  line 114, and the output neither starts nor ends with whitespace. Since the class
  contains \<open>!\<close>, \<open>?\<close> and \<open>:\<close>, the text inside quotes is rewritten too
  (\<open>'a ! b'\<close> becomes \<open>'a!b'\<close>).
\<close>

theorem minify_js_spacing:
  "\<not> adjacent space_pair (minify_js s) \<and> set (minify_js s) \<inter> Collect is_space \<subseteq> {CHR 0x20}
   \<and> \<not> adjacent (space_next_to js_operator) (minify_js s)
   \<and> (minify_js s = [] \<or> \<not> is_space (hd (minify_js s)) \<and> \<not> is_space (last (minify_js s)))"
proof -
  define s2 where "s2 = replace_all m_ws (replace_all m_js_comment s)"
  define s3 where "s3 = replace_all (m_around js_operator) s2"
  have out: "minify_js s = js_trim s3"
    unfolding minify_js_def Let_def s3_def s2_def
    by (simp add: js_syntax_steps_id gsub_m_around_result no_space_in_js_operator)
  have d: "ws_del (minify_js s) s2"
    unfolding out s3_def by (rule ws_del_trans [OF gsub_ws_del [OF deletes_ws_m_around] js_trim_ws_del])
  have w: "\<not> adjacent space_pair s2" "\<forall>c\<in>set s2. is_space c \<longrightarrow> c = CHR 0x20"
    unfolding s2_def using gsub_m_ws_result by blast+
  have "\<not> adjacent (space_next_to js_operator) s3"
    unfolding s3_def by (rule gsub_m_around_result [OF no_space_in_js_operator])
  then have "\<not> adjacent (space_next_to js_operator) (minify_js s)"
    unfolding out by (rule ws_del_adjacent [OF js_trim_ws_del ws_closed_space_next_to])
  moreover have "\<not> adjacent space_pair (minify_js s)"
    by (rule ws_del_adjacent [OF d ws_closed_space_pair w(1)])
  moreover have "set (minify_js s) \<inter> Collect is_space \<subseteq> {CHR 0x20}"
    using ws_del_set [OF d] w(2) by blast
  ultimately show ?thesis unfolding out using js_trim_ends by blast
qed

text \<open>
  C17. Lines 115 and 116 have no effect: every character of their class
  \<open>[;{}\[\](),]\<close> is also in the operator class of line 114, after which no
  whitespace touches such a character. The JavaScript minifier is the comment step,
  the whitespace collapse, the operator step and \<open>trim\<close>.
\<close>

theorem minify_js_dead_steps:
  "minify_js s = js_trim (replace_all (m_around js_operator) (replace_all m_ws (replace_all m_js_comment s)))"
  unfolding minify_js_def Let_def
  by (simp add: js_syntax_steps_id gsub_m_around_result no_space_in_js_operator)

subsection \<open>Worked examples\<close>

text \<open>
  The following evaluations show the effect of the patterns on small inputs.
  The semicolon eaten by line 112 joins two statements once line 113 collapses the
  line break:
\<close>

lemma minify_js_eats_semicolon:
  "minify_js (''a=1;// c'' @ CHR 0x0A # ''b=2'') = ''a=1 b=2''"
  by code_simp

text \<open>
  The JavaScript minifier rewrites the inside of string literals: spaces next to an
  operator character inside quotes are deleted, so the alert text of \<open>main.js\<close>
  (\<open>'... message! We will ...'\<close>) changes. A short instance:
\<close>

lemma minify_js_changes_string_literal:
  "minify_js ''alert('a ! b');'' = ''alert('a!b');''"
  by code_simp

text \<open>
  Comment removal is a single left-to-right pass, so removing one comment can form
  another: the output of the HTML minifier can still contain a complete comment, and the
  minifier is not idempotent.
\<close>

lemma minify_html_comment_survives:
  "minify_html ''<!<!-- x -->-- y -->'' = ''<!-- y -->''
   \<and> minify_html (minify_html ''<!<!-- x -->-- y -->'') \<noteq> minify_html ''<!<!-- x -->-- y -->''"
  by code_simp

text \<open>
  Removing the whitespace before \<open>:\<close> changes CSS selectors:
  \<open>div :first-child\<close> (any first child inside a div) becomes \<open>div:first-child\<close>
  (a div that is itself a first child).
\<close>

lemma minify_css_merges_descendant_selector:
  "minify_css ''div :first-child { color: red; }'' = ''div:first-child{color:red}''"
  by code_simp

end
