(* ===== verification/Walker.thy ===== *)
theory Walker
  imports FileSystem Minify
begin

text \<open>
  The file walker of \<open>src/build-simple.js\<close>: the configuration object (lines 6--18),
  \<open>copyFiles\<close> (lines 26--79) and the file side of \<open>minifyFile\<close> (lines 82--129).
  \<open>copyFiles\<close> reads the directory listing from the live file system while it writes
  into the build directory, so its recursion is not structural: it is modelled with a
  fuel argument that bounds the depth of the recursion, \<open>None\<close> meaning that the fuel
  ran out. Exceptions that the code does not catch are \<open>Inl\<close> results that end the
  walk; the \<open>try\<close> around the minification (lines 67--77) turns a failure there into
  a log line, so the walk goes on with the state after the copy.
\<close>

subsection \<open>Configuration\<close>

record config =
  source_dir :: path
  build_dir :: path
  exclude_dirs :: "string list"
  exclude_files :: "string list"
  html_types :: "string list"
  css_types :: "string list"
  js_types :: "string list"
  image_types :: "string list"
  font_types :: "string list"

definition cfg :: config where
  "cfg =
     \<lparr>source_dir = [],
      build_dir = [''dist''],
      exclude_dirs = [''node_modules'', ''.git'', ''dist'', ''.github''],
      exclude_files = [''.DS_Store'', ''Thumbs.db'', ''package-lock.json'', ''yarn.lock''],
      html_types = [''.html'', ''.htm''],
      css_types = [''.css''],
      js_types = [''.js''],
      image_types = [''.jpg'', ''.jpeg'', ''.png'', ''.svg'', ''.gif'', ''.webp''],
      font_types = [''.woff'', ''.woff2'', ''.eot'', ''.ttf'', ''.otf'']\<rparr>"

subsection \<open>Extensions\<close>

text \<open>
  \<open>path.extname\<close> of a base name: from the last dot to the end, except that a name
  without a dot, a name whose only dot leads (\<open>.DS_Store\<close>) and the name \<open>..\<close> have
  no extension. This is Node's scan from the right, with \<open>preDotState\<close> decided by
  the first character of the name.
\<close>

definition last_dot :: "string \<Rightarrow> nat option" where
  "last_dot b =
     (let ds = filter (\<lambda>i. b ! i = CHR ''.'') [0..<length b] in
      if ds = [] then None else Some (last ds))"

definition extname :: "string \<Rightarrow> string" where
  "extname b =
     (case last_dot b of
        None \<Rightarrow> ''''
      | Some d \<Rightarrow> (if d = 0 \<or> b = ''..'' then '''' else drop d b))"

text \<open>\<open>String.prototype.toLowerCase\<close> on Latin-1.\<close>

definition js_lower :: "char \<Rightarrow> char" where
  "js_lower c =
     (let n = (of_char c :: nat) in
      if (65 \<le> n \<and> n \<le> 90) \<or> (192 \<le> n \<and> n \<le> 222 \<and> n \<noteq> 215) then char_of (n + 32) else c)"

text \<open>Line 54: \<open>path.extname(source).toLowerCase()\<close>.\<close>

definition ext_of :: "path \<Rightarrow> string" where
  "ext_of p = map js_lower (extname (basename p))"

text \<open>Lines 68--74: the minifier a file extension selects.\<close>

definition file_type :: "string \<Rightarrow> string option" where
  "file_type ext =
     (if ext \<in> set (html_types cfg) then Some ''html''
      else if ext \<in> set (css_types cfg) then Some ''css''
      else if ext \<in> set (js_types cfg) then Some ''js''
      else None)"

subsection \<open>minifyFile on the file system\<close>

text \<open>
  Line 83 reads the file outside the inner \<open>try\<close>, so a read error propagates; a
  failed write inside the \<open>try\<close> (line 123) is caught and leaves the file as it was.
\<close>

definition minify_file :: "fs \<Rightarrow> path \<Rightarrow> string \<Rightarrow> error + fs" where
  "minify_file st p type =
     (case read_file st p of
        Inl e \<Rightarrow> Inl e
      | Inr content \<Rightarrow>
          (case minified_content type content of
             None \<Rightarrow> Inr st
           | Some minified \<Rightarrow> (case write_file st p minified of Inl e \<Rightarrow> Inr st | Inr st' \<Rightarrow> Inr st')))"

subsection \<open>copyFiles\<close>

text \<open>\<open>if (!fs.existsSync(d)) fs.mkdirSync(d, {recursive: true})\<close>.\<close>

definition ensure_dir :: "fs \<Rightarrow> path \<Rightarrow> error + fs" where
  "ensure_dir st d = (if exists_sync st d then Inr st else mkdir_p st d)"

text \<open>The file branch, lines 46--78.\<close>

definition copy_one :: "fs \<Rightarrow> path \<Rightarrow> path \<Rightarrow> error + fs" where
  "copy_one st src tgt =
     (if basename src \<in> set (exclude_files cfg) then Inr st
      else
        (let ext = ext_of src in
         case ensure_dir st (dirname tgt) of
           Inl e \<Rightarrow> Inl e
         | Inr st1 \<Rightarrow>
             (case copy_file st1 src tgt of
                Inl e \<Rightarrow> Inl e
              | Inr st2 \<Rightarrow>
                  Inr (case file_type ext of
                         None \<Rightarrow> st2
                       | Some type \<Rightarrow>
                           (case minify_file st2 tgt type of Inl e \<Rightarrow> st2 | Inr st3 \<Rightarrow> st3)))))"

text \<open>
  The recursion, lines 26--45: a directory is skipped when its base name is excluded,
  otherwise the target is created and each listed item is copied in turn. The fuel
  decreases from a directory to its items.
\<close>

fun copy_files :: "nat \<Rightarrow> path \<Rightarrow> path \<Rightarrow> fs \<Rightarrow> (error + fs) option"
  and copy_items :: "nat \<Rightarrow> path \<Rightarrow> path \<Rightarrow> string list \<Rightarrow> fs \<Rightarrow> (error + fs) option" where
  "copy_files 0 src tgt st = None"
| "copy_files (Suc n) src tgt st =
     (case is_directory st src of
        Inl e \<Rightarrow> Some (Inl e)
      | Inr True \<Rightarrow>
          (if basename src \<in> set (exclude_dirs cfg) then Some (Inr st)
           else
             (case ensure_dir st tgt of
                Inl e \<Rightarrow> Some (Inl e)
              | Inr st1 \<Rightarrow>
                  (case readdir st1 src of
                     Inl e \<Rightarrow> Some (Inl e)
                   | Inr items \<Rightarrow> copy_items n src tgt items st1)))
      | Inr False \<Rightarrow> Some (copy_one st src tgt))"
| "copy_items n src tgt [] st = Some (Inr st)"
| "copy_items n src tgt (item # items) st =
     (case copy_files n (src @ [item]) (tgt @ [item]) st of
        None \<Rightarrow> None
      | Some (Inl e) \<Rightarrow> Some (Inl e)
      | Some (Inr st') \<Rightarrow> copy_items n src tgt items st')"

text \<open>The build directory \<open>dist\<close>.\<close>

abbreviation D :: path where "D \<equiv> [''dist'']"

subsection \<open>Abstract specification: the mirror of the source tree\<close>

text \<open>
  What a walk should produce, computed from the source tree alone: the content a file
  has in the build directory (copied, then replaced by the minified text when that is
  shorter), and the entries a walk of \<open>src\<close> appends, in the order of the directory
  listings. The build directory is the target of the root; every other directory gets
  its own entry. The fuel of \<open>mirror\<close> counts like that of \<open>copy_files\<close>.
\<close>

definition final_content :: "path \<Rightarrow> jsstr \<Rightarrow> jsstr" where
  "final_content src c =
     (case file_type (ext_of src) of
        None \<Rightarrow> c
      | Some type \<Rightarrow> (case minified_content type c of None \<Rightarrow> c | Some m \<Rightarrow> m))"

fun mirror :: "nat \<Rightarrow> fs \<Rightarrow> path \<Rightarrow> fs option"
  and mirror_items :: "nat \<Rightarrow> fs \<Rightarrow> path \<Rightarrow> string list \<Rightarrow> fs option" where
  "mirror 0 st src = None"
| "mirror (Suc n) st src =
     (case lookup st src of
        None \<Rightarrow> Some []
      | Some Dir \<Rightarrow>
          (if basename src \<in> set (exclude_dirs cfg) then Some []
           else map_option (\<lambda>es. (if src = [] then [] else [(build_dir cfg @ src, Dir)]) @ es)
                  (mirror_items n st src (children st src)))
      | Some (File c) \<Rightarrow>
          Some (if basename src \<in> set (exclude_files cfg) then []
                else [(build_dir cfg @ src, File (final_content src c))]))"
| "mirror_items n st src [] = Some []"
| "mirror_items n st src (item # items) =
     (case mirror n st (src @ [item]) of
        None \<Rightarrow> None
      | Some es \<Rightarrow> map_option (\<lambda>es'. es @ es') (mirror_items n st src items))"

text \<open>
  A source path \<open>q\<close> is \<^emph>\<open>reached\<close> by a walk of \<open>src\<close> when every directory
  from \<open>src\<close> down to the parent of \<open>q\<close> exists and is not excluded by name; what the
  walk writes for it (\<open>expected\<close>) is a directory unless the directory is excluded,
  and the final content of a file unless the file is excluded.
\<close>

definition reached :: "fs \<Rightarrow> path \<Rightarrow> path \<Rightarrow> bool" where
  "reached st src q \<longleftrightarrow> prefix src q \<and>
     (\<forall>j. length src \<le> j \<and> j < length q \<longrightarrow>
        lookup st (take j q) = Some Dir \<and> basename (take j q) \<notin> set (exclude_dirs cfg))"

definition expected :: "fs \<Rightarrow> path \<Rightarrow> node option" where
  "expected st q =
     (case lookup st q of
        None \<Rightarrow> None
      | Some Dir \<Rightarrow> (if basename q \<in> set (exclude_dirs cfg) then None else Some Dir)
      | Some (File c) \<Rightarrow>
          (if basename q \<in> set (exclude_files cfg) then None else Some (File (final_content q c))))"

subsection \<open>A sample source tree\<close>

text \<open>
  A small tree with the cases the walker distinguishes: a page at the root, an excluded
  directory, the (empty) build directory, an upper-case stylesheet and an excluded file;
  \<open>demo_out\<close> is what the walk appends.
\<close>

definition demo_fs :: fs where
  "demo_fs = [([''dist''], Dir), ([''index.html''], File ''<p> hi </p>  <p>x</p>''),
     ([''node_modules''], Dir), ([''node_modules'', ''lib.js''], File ''var  x = 1;''),
     ([''assets''], Dir), ([''assets'', ''S.CSS''], File ''a { color : red ; }''),
     ([''assets'', ''.DS_Store''], File ''junk'')]"

definition demo_out :: fs where
  "demo_out = [([''dist'', ''index.html''], File ''<p> hi </p><p>x</p>''),
   ([''dist'', ''assets''], Dir), ([''dist'', ''assets'', ''S.CSS''], File ''a{color:red}'')]"

subsection \<open>Lemmas: single steps on a fresh target\<close>

lemma build_dir_cfg [simp]: "build_dir cfg = [''dist'']"
  by (simp add: cfg_def)

lemma ensure_dir_exists: "lookup st d = Some Dir \<Longrightarrow> ensure_dir st d = Inr st"
  by (simp add: ensure_dir_def exists_sync_def)

lemma ensure_dir_fresh:
  "\<forall>i < length p. lookup st (take i p) = Some Dir \<Longrightarrow> lookup st p = None \<Longrightarrow>
   ensure_dir st p = Inr (st @ [(p, Dir)])"
  by (simp add: ensure_dir_def exists_sync_def mkdir_p_fresh)

lemma copy_one_fresh:
  assumes src: "lookup st src = Some (File c)"
    and parent: "lookup st (butlast tgt) = Some Dir" and fresh: "lookup st tgt = None"
  shows "copy_one st src tgt =
    Inr (if basename src \<in> set (exclude_files cfg) then st
         else st @ [(tgt, File (final_content src c))])"
proof (cases "basename src \<in> set (exclude_files cfg)")
  case True
  then show ?thesis by (simp add: copy_one_def)
next
  case False
  from fresh have tgt: "tgt \<noteq> []" "tgt \<notin> keys st" using lookup_None_key by auto
  have copied: "copy_file st src tgt = Inr (st @ [(tgt, File c)])"
    using src parent fresh tgt by (simp add: copy_file_def read_file_def write_file_def put_new)
  have lk: "lookup (st @ [(tgt, File c)]) (butlast tgt) = Some Dir"
    by (rule lookup_append_left [OF parent])
  have rd: "lookup (st @ [(tgt, File c)]) tgt = Some (File c)"
    using tgt by (simp add: lookup_snoc_same)
  have "minify_file (st @ [(tgt, File c)]) tgt type =
        Inr (case minified_content type c of None \<Rightarrow> st @ [(tgt, File c)] | Some m \<Rightarrow> st @ [(tgt, File m)])"
    for type
    using lk rd tgt
    by (simp add: minify_file_def read_file_def write_file_def put_last split: option.splits)
  with False copied parent show ?thesis
    by (simp add: copy_one_def ensure_dir_exists dirname_def final_content_def
        split: option.splits)
qed

subsection \<open>Lemmas: the walk refines the mirror\<close>


lemma mirror_keys:
  "mirror n st src = Some es \<Longrightarrow> \<forall>p\<in>keys es. prefix (D @ src) p \<and> length D < length p"
  "mirror_items n st src items = Some es \<Longrightarrow>
     \<forall>p\<in>keys es. \<exists>i\<in>set items. prefix (D @ src @ [i]) p \<and> length D < length p"
proof (induction n st src and n st src items arbitrary: es and es rule: mirror_mirror_items.induct)
  case (2 n st src)
  show ?case
  proof (cases "lookup st src")
    case (Some nd)
    show ?thesis
    proof (cases nd)
      case Dir
      show ?thesis
      proof (cases "basename src \<in> set (exclude_dirs cfg)")
        case False
        with "2.prems" Some Dir obtain es' where
          es': "mirror_items n st src (children st src) = Some es'"
          "es = (if src = [] then [] else [(D @ src, Dir)]) @ es'"
          by auto
        from "2.IH" [OF Some Dir False es'(1)] es'(2) show ?thesis
          by (auto simp: prefix_def)
      qed (use "2.prems" Some Dir in simp)
    qed (use "2.prems" Some in \<open>auto split: if_splits\<close>)
  qed (use "2.prems" in simp)
next
  case (4 n st src item items)
  from "4.prems" obtain es1 es2 where e: "mirror n st (src @ [item]) = Some es1"
    "mirror_items n st src items = Some es2" "es = es1 @ es2"
    by (auto split: option.splits)
  from "4.IH"(1) [OF e(1)] "4.IH"(2) [OF e(1) e(2)] e(3) show ?case by auto
qed auto



text \<open>The item loop follows the mirror when every directory step does.\<close>

lemma items_refine:
  assumes files: "\<And>src' acc'. (src' = [] \<or> lookup st0 src' \<noteq> None) \<Longrightarrow> \<not> strict_prefix D src' \<Longrightarrow>
      (\<forall>p\<in>keys acc'. strict_prefix D p \<and> \<not> prefix (D @ src') p) \<Longrightarrow>
      (\<forall>i < length src'. lookup (st0 @ acc') (D @ take i src') = Some Dir) \<Longrightarrow>
      copy_files n src' (D @ src') (st0 @ acc') = map_option (\<lambda>es. Inr (st0 @ acc' @ es)) (mirror n st0 src')"
    and src: "lookup st0 src = Some Dir" "basename src \<notin> set (exclude_dirs cfg)" "\<not> strict_prefix D src"
    and st0: "lookup st0 D = Some Dir"
  shows "set items \<subseteq> set (children st0 src) \<Longrightarrow> distinct items \<Longrightarrow>
    (\<forall>p\<in>keys acc. strict_prefix D p \<and> (\<forall>i\<in>set items. \<not> prefix (D @ src @ [i]) p)) \<Longrightarrow>
    (\<forall>i \<le> length src. lookup (st0 @ acc) (D @ take i src) = Some Dir) \<Longrightarrow>
    copy_items n src (D @ src) items (st0 @ acc) =
      map_option (\<lambda>es. Inr (st0 @ acc @ es)) (mirror_items n st0 src items)"
proof (induction items arbitrary: acc)
  case Nil
  then show ?case by simp
next
  case (Cons i items)
  from Cons.prems(1) obtain nd where nd: "(src @ [i], nd) \<in> set st0"
    using children_mem by fastforce
  have lk: "lookup st0 (src @ [i]) \<noteq> None"
    using nd by (auto simp: lookup_def) (metis weak_map_of_SomeI option.distinct(1))
  have nsp: "\<not> strict_prefix D (src @ [i])"
  proof
    assume sp: "strict_prefix D (src @ [i])"
    show False
    proof (cases "src = []")
      case True
      with sp show False by (auto simp: strict_prefix_def prefix_def Cons_eq_append_conv)
    next
      case False
      with sp have "prefix D src"
        by (auto simp: strict_prefix_def prefix_def append_eq_Cons_conv Cons_eq_append_conv)
      then have "src = D \<or> strict_prefix D src" by (auto simp: strict_prefix_def)
      with src st0 show False by (auto simp: basename_def cfg_def)
    qed
  qed
  have acc_ok: "\<forall>p\<in>keys acc. strict_prefix D p \<and> \<not> prefix (D @ src @ [i]) p"
    using Cons.prems(3) by simp
  have anc: "\<forall>j < length (src @ [i]). lookup (st0 @ acc) (D @ take j (src @ [i])) = Some Dir"
    using Cons.prems(4) by auto
  have step: "copy_files n (src @ [i]) (D @ src @ [i]) (st0 @ acc) =
      map_option (\<lambda>es. Inr (st0 @ acc @ es)) (mirror n st0 (src @ [i]))"
    using files [OF _ nsp acc_ok anc] lk by simp
  show ?case
  proof (cases "mirror n st0 (src @ [i])")
    case None
    with step show ?thesis by simp
  next
    case (Some es)
    have keys_es: "\<forall>p\<in>keys es. strict_prefix D p \<and> (\<forall>j\<in>set items. \<not> prefix (D @ src @ [j]) p)"
    proof
      fix p assume p: "p \<in> keys es"
      from mirror_keys(1) [OF Some] p have pre: "prefix (D @ src @ [i]) p" "length D < length p"
        by auto
      then have "strict_prefix D p"
        by (auto simp: strict_prefix_def prefix_def)
      moreover have "\<not> prefix (D @ src @ [j]) p" if "j \<in> set items" for j
      proof
        assume "prefix (D @ src @ [j]) p"
        with pre(1) have "i = j" using prefix_snoc_distinct [of "D @ src" i p j] by simp
        with that Cons.prems(2) show False by simp
      qed
      ultimately show "strict_prefix D p \<and> (\<forall>j\<in>set items. \<not> prefix (D @ src @ [j]) p)" by blast
    qed
    have ih: "copy_items n src (D @ src) items (st0 @ acc @ es) =
        map_option (\<lambda>es'. Inr (st0 @ (acc @ es) @ es')) (mirror_items n st0 src items)"
    proof (rule Cons.IH)
      show "set items \<subseteq> set (children st0 src)" "distinct items"
        using Cons.prems(1,2) by auto
      show "\<forall>p\<in>keys (acc @ es). strict_prefix D p \<and> (\<forall>j\<in>set items. \<not> prefix (D @ src @ [j]) p)"
        using Cons.prems(3) keys_es by auto
      show "\<forall>j \<le> length src. lookup (st0 @ acc @ es) (D @ take j src) = Some Dir"
      proof (intro allI impI)
        fix j assume "j \<le> length src"
        with Cons.prems(4) have "lookup (st0 @ acc) (D @ take j src) = Some Dir" by blast
        from lookup_append_left [OF this, of es] show "lookup (st0 @ acc @ es) (D @ take j src) = Some Dir"
          by simp
      qed
    qed
    from step Some ih show ?thesis by (cases "mirror_items n st0 src items") simp_all
  qed
qed

lemma children_acc_none:
  "\<forall>p\<in>keys acc. strict_prefix D p \<Longrightarrow> \<not> strict_prefix D src \<Longrightarrow> src \<noteq> D \<Longrightarrow>
   children acc src = []"
proof (rule children_none, intro ballI)
  fix p assume "p \<in> keys acc" "\<forall>p\<in>keys acc. strict_prefix D p" "\<not> strict_prefix D src" "src \<noteq> D"
  then have sp: "strict_prefix D p" by blast
  show "p = [] \<or> butlast p \<noteq> src"
  proof (rule disjI2, rule notI)
    assume "butlast p = src"
    with sp have "prefix D src \<or> p = D @ [last p] \<and> src = D"
      by (auto simp: strict_prefix_def prefix_def)
    with \<open>\<not> strict_prefix D src\<close> \<open>src \<noteq> D\<close> show False
      by (auto simp: strict_prefix_def)
  qed
qed

lemma not_key_below:
  "\<forall>p\<in>keys st. \<not> strict_prefix D p \<Longrightarrow> src \<noteq> [] \<Longrightarrow> D @ src \<notin> keys st"
proof
  assume a: "\<forall>p\<in>keys st. \<not> strict_prefix D p" "src \<noteq> []" "D @ src \<in> keys st"
  from a(1,3) have "\<not> strict_prefix D (D @ src)" by blast
  moreover from a(2) have "strict_prefix D (D @ src)" by (simp add: strict_prefix_def)
  ultimately show False by simp
qed

lemma dir_refine:
  assumes st0: "distinct (map fst st0)" "lookup st0 D = Some Dir" "\<forall>p\<in>keys st0. \<not> strict_prefix D p"
    and items: "\<And>src' acc'. lookup st0 src' = Some Dir \<Longrightarrow> basename src' \<notin> set (exclude_dirs cfg) \<Longrightarrow>
      \<not> strict_prefix D src' \<Longrightarrow>
      (\<forall>p\<in>keys acc'. strict_prefix D p \<and> (\<forall>i\<in>set (children st0 src'). \<not> prefix (D @ src' @ [i]) p)) \<Longrightarrow>
      (\<forall>i \<le> length src'. lookup (st0 @ acc') (D @ take i src') = Some Dir) \<Longrightarrow>
      copy_items n src' (D @ src') (children st0 src') (st0 @ acc') =
        map_option (\<lambda>es. Inr (st0 @ acc' @ es)) (mirror_items n st0 src' (children st0 src'))"
    and src: "src = [] \<or> lookup st0 src \<noteq> None" "\<not> strict_prefix D src"
    and acc: "\<forall>p\<in>keys acc. strict_prefix D p \<and> \<not> prefix (D @ src) p"
    and anc: "\<forall>i < length src. lookup (st0 @ acc) (D @ take i src) = Some Dir"
  shows "copy_files (Suc n) src (D @ src) (st0 @ acc) =
    map_option (\<lambda>es. Inr (st0 @ acc @ es)) (mirror (Suc n) st0 src)"
proof -
  have src_fresh: "src \<notin> keys acc"
    using acc src(2) by auto
  then have lk_src: "lookup (st0 @ acc) src = lookup st0 src"
    by (rule lookup_append_fresh)
  show ?thesis
  proof (cases "lookup st0 src")
    case None
    with src(1) show ?thesis by auto
  next
    case (Some nd)
    show ?thesis
    proof (cases nd)
      case (File c)
      from Some File src(1) have "src \<noteq> []" by auto
      have parent: "lookup (st0 @ acc) (butlast (D @ src)) = Some Dir"
        using anc [rule_format, of "length src - 1"] \<open>src \<noteq> []\<close>
        by (simp add: butlast_append butlast_conv_take take_Cons')
      have "D @ src \<notin> keys st0"
        using not_key_below [OF st0(3) \<open>src \<noteq> []\<close>] .
      moreover have "D @ src \<notin> keys acc" using acc by auto
      ultimately have fresh: "lookup (st0 @ acc) (D @ src) = None"
        by (simp add: lookup_def map_of_append map_add_def map_of_eq_None_iff split: option.splits)
      show ?thesis
        using copy_one_fresh [of "st0 @ acc" src c "D @ src", OF _ parent fresh] lk_src Some File
        by (simp add: is_directory_def)
    next
      case Dir
      show ?thesis
      proof (cases "basename src \<in> set (exclude_dirs cfg)")
        case True
        with lk_src Some Dir show ?thesis by (simp add: is_directory_def)
      next
        case False
        then have "src \<noteq> D" by (auto simp: basename_def cfg_def)
        have tgt_fresh: "D @ src \<notin> keys (st0 @ acc)" if "src \<noteq> []"
          using not_key_below [OF st0(3) that] acc by auto
        define acc' where "acc' = (if src = [] then acc else acc @ [(D @ src, Dir)])"
        have ens: "ensure_dir (st0 @ acc) (D @ src) = Inr (st0 @ acc')"
        proof (cases "src = []")
          case True
          with st0(2) src_fresh acc show ?thesis
            by (simp add: acc'_def ensure_dir_exists lookup_append_left)
        next
          case False
          have "D @ src \<notin> keys st0"
            using not_key_below [OF st0(3) False] .
          moreover have "D @ src \<notin> keys acc" using acc by auto
          ultimately have fresh: "lookup (st0 @ acc) (D @ src) = None"
            by (simp add: lookup_def map_of_append map_add_def map_of_eq_None_iff split: option.splits)
          have "\<forall>i < length (D @ src). lookup (st0 @ acc) (take i (D @ src)) = Some Dir"
          proof (intro allI impI)
            fix i assume "i < length (D @ src)"
            then show "lookup (st0 @ acc) (take i (D @ src)) = Some Dir"
              using anc [rule_format, of "i - 1"] by (cases i) auto
          qed
          from ensure_dir_fresh [OF this fresh] False show ?thesis by (simp add: acc'_def)
        qed
        have acc'_keys: "\<forall>p\<in>keys acc'. strict_prefix D p" and
          acc'_child: "\<forall>p\<in>keys acc'. \<forall>i. \<not> prefix (D @ src @ [i]) p"
          using acc by (auto simp: acc'_def strict_prefix_def prefix_def)
        have "children acc' src = []"
          by (rule children_acc_none [OF acc'_keys src(2) \<open>src \<noteq> D\<close>])
        then have rd: "readdir (st0 @ acc') src = Inr (children st0 src)"
          using lk_src Some Dir src_fresh
          by (auto simp: readdir_def children_append acc'_def lookup_append_fresh)
        have anc': "\<forall>i \<le> length src. lookup (st0 @ acc') (D @ take i src) = Some Dir"
        proof (intro allI impI)
          fix i assume i: "i \<le> length src"
          show "lookup (st0 @ acc') (D @ take i src) = Some Dir"
          proof (cases "i < length src")
            case True
            with anc have "lookup (st0 @ acc) (D @ take i src) = Some Dir" by blast
            then show ?thesis unfolding acc'_def using lookup_append_left [of "st0 @ acc"] by auto
          next
            case False
            with i have "take i src = src" by simp
            show ?thesis
            proof (cases "src = []")
              case True
              with st0(2) show ?thesis by (simp add: acc'_def lookup_append_left)
            next
              case False
              from lookup_snoc_same [OF _ tgt_fresh [OF False], of Dir] \<open>take i src = src\<close> False
              show ?thesis by (simp add: acc'_def)
            qed
          qed
        qed
        have "copy_items n src (D @ src) (children st0 src) (st0 @ acc') =
            map_option (\<lambda>es. Inr (st0 @ acc' @ es)) (mirror_items n st0 src (children st0 src))"
          using items [OF _ False src(2) _ anc'] Some Dir acc'_keys acc'_child by auto
        with lk_src Some Dir False ens rd show ?thesis
          by (cases "mirror_items n st0 src (children st0 src)")
            (auto simp: is_directory_def acc'_def)
      qed
    qed
  qed
qed

lemma walk_refine_gen:
  assumes st0: "distinct (map fst st0)" "lookup st0 D = Some Dir" "\<forall>p\<in>keys st0. \<not> strict_prefix D p"
  shows "(src = [] \<or> lookup st0 src \<noteq> None) \<Longrightarrow> \<not> strict_prefix D src \<Longrightarrow>
    (\<forall>p\<in>keys acc. strict_prefix D p \<and> \<not> prefix (D @ src) p) \<Longrightarrow>
    (\<forall>i < length src. lookup (st0 @ acc) (D @ take i src) = Some Dir) \<Longrightarrow>
    copy_files n src (D @ src) (st0 @ acc) = map_option (\<lambda>es. Inr (st0 @ acc @ es)) (mirror n st0 src)"
proof (induction n arbitrary: src acc)
  case 0
  then show ?case by simp
next
  case (Suc n)
  show ?case
  proof (rule dir_refine [OF st0 _ Suc.prems])
    fix src' acc'
    assume a: "lookup st0 src' = Some Dir" "basename src' \<notin> set (exclude_dirs cfg)"
      "\<not> strict_prefix D src'"
      "\<forall>p\<in>keys acc'. strict_prefix D p \<and> (\<forall>i\<in>set (children st0 src'). \<not> prefix (D @ src' @ [i]) p)"
      "\<forall>i \<le> length src'. lookup (st0 @ acc') (D @ take i src') = Some Dir"
    show "copy_items n src' (D @ src') (children st0 src') (st0 @ acc') =
        map_option (\<lambda>es. Inr (st0 @ acc' @ es)) (mirror_items n st0 src' (children st0 src'))"
      by (rule items_refine [OF Suc.IH a(1-3) st0(2) order_refl distinct_children [OF st0(1)] a(4,5)])
  qed
qed

lemma mirror_enough_fuel:
  "0 < n \<Longrightarrow> (\<forall>p\<in>keys st. prefix src p \<longrightarrow> length p < length src + n) \<Longrightarrow> mirror n st src \<noteq> None"
  "(\<forall>i\<in>set items. src @ [i] \<in> keys st) \<Longrightarrow>
     (\<forall>p\<in>keys st. prefix src p \<longrightarrow> length p < length src + Suc n) \<Longrightarrow> mirror_items n st src items \<noteq> None"
proof (induction n st src and n st src items rule: mirror_mirror_items.induct)
  case (2 n st src)
  show ?case
  proof (cases "lookup st src = Some Dir \<and> basename src \<notin> set (exclude_dirs cfg)")
    case True
    have "mirror_items n st src (children st src) \<noteq> None"
    proof (rule "2.IH")
      show "\<forall>i\<in>set (children st src). src @ [i] \<in> keys st"
        using children_mem by force
      show "\<forall>p\<in>keys st. prefix src p \<longrightarrow> length p < length src + Suc n"
        using "2.prems"(2) by simp
    qed (use True in auto)
    with True show ?thesis by (auto split: option.splits)
  next
    case False
    then show ?thesis by (auto split: option.splits node.splits)
  qed
next
  case (4 n st src item items)
  have "0 < n" using "4.prems" by fastforce
  moreover have "\<forall>p\<in>keys st. prefix (src @ [item]) p \<longrightarrow> length p < length (src @ [item]) + n"
    using "4.prems"(2) by (auto dest: prefix_order.trans[rotated] simp: prefix_def)
  ultimately have "mirror n st (src @ [item]) \<noteq> None" by (rule "4.IH"(1))
  moreover have "mirror_items n st src items \<noteq> None" if "mirror n st (src @ [item]) = Some es" for es
    using "4.IH"(2) [OF that] "4.prems" by simp
  ultimately show ?case by (auto split: option.splits)
qed auto

subsection \<open>Lemmas: what the mirror contains\<close>

lemma reached_self: "reached st src src"
  by (auto simp: reached_def)

lemma reached_prefix: "reached st src q \<Longrightarrow> prefix src q"
  by (simp add: reached_def)

lemma reached_child_exists:
  assumes "reached st (src @ [i]) q" "expected st q = Some x"
  shows "lookup st (src @ [i]) \<noteq> None"
proof (cases "q = src @ [i]")
  case True
  with assms(2) show ?thesis by (auto simp: expected_def split: option.splits)
next
  case False
  with assms(1) have "length (src @ [i]) < length q" "take (length (src @ [i])) q = src @ [i]"
    by (auto simp: reached_def prefix_def)
  with assms(1) show ?thesis unfolding reached_def by (metis order_refl option.distinct(1))
qed

lemma reached_Cons:
  "reached st src (src @ i # r) \<longleftrightarrow>
     lookup st src = Some Dir \<and> basename src \<notin> set (exclude_dirs cfg) \<and> reached st (src @ [i]) (src @ i # r)"
proof -
  have split: "(\<forall>j. length src \<le> j \<and> j < length (src @ i # r) \<longrightarrow> P j) \<longleftrightarrow>
      P (length src) \<and> (\<forall>j. length (src @ [i]) \<le> j \<and> j < length (src @ i # r) \<longrightarrow> P j)" for P
    by (auto simp: le_less) (metis Suc_leI le_neq_implies_less)
  show ?thesis
    unfolding reached_def split by (auto simp: prefix_def)
qed

lemma mirror_entries:
  "mirror n st src = Some es \<Longrightarrow>
     (D @ q, x) \<in> set es \<longleftrightarrow> reached st src q \<and> (src \<noteq> [] \<or> q \<noteq> []) \<and> expected st q = Some x"
  "mirror_items n st src items = Some es \<Longrightarrow>
     (D @ q, x) \<in> set es \<longleftrightarrow> (\<exists>i\<in>set items. reached st (src @ [i]) q \<and> expected st q = Some x)"
proof (induction n st src and n st src items arbitrary: es and es rule: mirror_mirror_items.induct)
  case (2 n st src)
  show ?case
  proof (cases "lookup st src")
    case None
    with "2.prems" have "es = []" by simp
    moreover have "\<not> (reached st src q \<and> expected st q = Some x)"
      using None by (cases "q = src")
        (auto simp: expected_def reached_def prefix_def dest: spec [of _ "length src"])
    ultimately show ?thesis by simp
  next
    case (Some nd)
    show ?thesis
    proof (cases nd)
      case (File c)
      have es: "es = (if basename src \<in> set (exclude_files cfg) then []
          else [(D @ src, File (final_content src c))])" using "2.prems" Some File by auto
      have src: "src \<noteq> []" using Some File by auto
      have "reached st src q \<and> expected st q = Some x \<longleftrightarrow>
          q = src \<and> basename src \<notin> set (exclude_files cfg) \<and> x = File (final_content src c)"
        using Some File by (cases "q = src")
          (auto simp: expected_def reached_def prefix_def reached_self dest: spec [of _ "length src"])
      with es src show ?thesis by auto
    next
      case Dir
      show ?thesis
      proof (cases "basename src \<in> set (exclude_dirs cfg)")
        case True
        with "2.prems" Some Dir have "es = []" by simp
        moreover have "\<not> (reached st src q \<and> expected st q = Some x)"
          using Some Dir True by (cases "q = src")
            (auto simp: expected_def reached_def prefix_def dest: spec [of _ "length src"])
        ultimately show ?thesis by simp
      next
        case False
        with "2.prems" Some Dir obtain es' where es': "mirror_items n st src (children st src) = Some es'"
          "es = (if src = [] then [] else [(D @ src, Dir)]) @ es'"
          by auto
        have ih: "(D @ q, x) \<in> set es' \<longleftrightarrow>
            (\<exists>i\<in>set (children st src). reached st (src @ [i]) q \<and> expected st q = Some x)"
          by (rule "2.IH" [OF Some Dir False es'(1)])
        show ?thesis
        proof (cases "prefix src q")
          case False
          then have "\<not> reached st src q" "\<forall>i. \<not> reached st (src @ [i]) q"
            by (auto simp: reached_def prefix_def)
          with ih es'(2) False show ?thesis by (auto simp: prefix_def)
        next
          case True
          then obtain r where q: "q = src @ r" by (auto simp: prefix_def)
          show ?thesis
          proof (cases r)
            case Nil
            have "\<forall>i. \<not> reached st (src @ [i]) src" by (auto simp: reached_def prefix_def)
            with ih es'(2) q Nil Some Dir False show ?thesis
              by (auto simp: expected_def reached_self)
          next
            case (Cons i r')
            have "(D @ q, x) \<notin> set (if src = [] then [] else [(D @ src, Dir)])"
              using q Cons by auto
            moreover have "(\<exists>i'\<in>set (children st src). reached st (src @ [i']) q \<and> expected st q = Some x)
                \<longleftrightarrow> reached st (src @ [i]) q \<and> expected st q = Some x"
            proof
              assume "reached st (src @ [i]) q \<and> expected st q = Some x"
              moreover then have "i \<in> set (children st src)"
                using reached_child_exists children_iff by blast
              ultimately show "\<exists>i'\<in>set (children st src). reached st (src @ [i']) q \<and> expected st q = Some x"
                by blast
            next
              assume "\<exists>i'\<in>set (children st src). reached st (src @ [i']) q \<and> expected st q = Some x"
              then obtain i' where "reached st (src @ [i']) q" "expected st q = Some x" by blast
              moreover from reached_prefix [OF this(1)] q Cons have "i' = i" by (auto simp: prefix_def)
              ultimately show "reached st (src @ [i]) q \<and> expected st q = Some x" by simp
            qed
            ultimately show ?thesis
              using ih es'(2) q Cons reached_Cons [of st src i r'] Some Dir False by auto
          qed
        qed
      qed
    qed
  qed
next
  case (4 n st src item items)
  from "4.prems" obtain es1 es2 where e: "mirror n st (src @ [item]) = Some es1"
    "mirror_items n st src items = Some es2" "es = es1 @ es2"
    by (auto split: option.splits)
  have "(D @ q, x) \<in> set es1 \<longleftrightarrow> reached st (src @ [item]) q \<and> expected st q = Some x"
    using "4.IH"(1) [OF e(1)] by auto
  with "4.IH"(2) [OF e(1) e(2)] e(3) show ?case by auto
qed auto

lemma mirror_distinct:
  "distinct (map fst st) \<Longrightarrow> mirror n st src = Some es \<Longrightarrow> distinct (map fst es)"
  "distinct (map fst st) \<Longrightarrow> distinct items \<Longrightarrow> mirror_items n st src items = Some es \<Longrightarrow> distinct (map fst es)"
proof (induction n st src and n st src items arbitrary: es and es rule: mirror_mirror_items.induct)
  case (2 n st src)
  show ?case
  proof (cases "lookup st src = Some Dir \<and> basename src \<notin> set (exclude_dirs cfg)")
    case True
    with "2.prems"(2) obtain es' where es': "mirror_items n st src (children st src) = Some es'"
      "es = (if src = [] then [] else [(D @ src, Dir)]) @ es'"
      by auto
    have "distinct (map fst es')"
      using "2.IH" [OF _ _ _ "2.prems"(1) distinct_children [OF "2.prems"(1)] es'(1)] True by auto
    moreover have "D @ src \<notin> keys es'"
      using mirror_keys(2) [OF es'(1)] by (force simp: prefix_def)
    ultimately show ?thesis using es'(2) by auto
  next
    case False
    with "2.prems"(2) show ?thesis by (auto split: option.splits node.splits if_splits)
  qed
next
  case (4 n st src item items)
  from "4.prems"(3) obtain es1 es2 where e: "mirror n st (src @ [item]) = Some es1"
    "mirror_items n st src items = Some es2" "es = es1 @ es2"
    by (auto split: option.splits)
  have "distinct (map fst es1)" by (rule "4.IH"(1) [OF "4.prems"(1) e(1)])
  moreover have "distinct (map fst es2)" using "4.IH"(2) [OF e(1) "4.prems"(1) _ e(2)] "4.prems"(2) by simp
  moreover have "keys es1 \<inter> keys es2 = {}"
  proof -
    have "p \<notin> keys es2" if "p \<in> keys es1" for p
    proof
      assume "p \<in> keys es2"
      then obtain i where "i \<in> set items" "prefix (D @ src @ [i]) p" using mirror_keys(2) [OF e(2)] by blast
      moreover have "prefix (D @ src @ [item]) p" using mirror_keys(1) [OF e(1)] that by auto
      ultimately show False using "4.prems"(2) prefix_snoc_distinct [of "D @ src" i p item] by auto
    qed
    then show ?thesis by blast
  qed
  ultimately show ?case using e(3) by simp
qed auto

lemma reached_parent:
  assumes "reached st [] q" "butlast q \<noteq> []"
  shows "reached st [] (butlast q) \<and> expected st (butlast q) = Some Dir"
proof -
  have len: "length (butlast q) < length q" using assms(2) by (cases q rule: rev_cases) auto
  have tk: "take j (butlast q) = take j q" if "j < length (butlast q)" for j
    using that by (simp add: take_butlast)
  have "reached st [] (butlast q)"
    using assms(1) len tk by (simp add: reached_def)
  moreover have "lookup st (take (length (butlast q)) q) = Some Dir \<and>
      basename (take (length (butlast q)) q) \<notin> set (exclude_dirs cfg)"
    using assms(1) len by (simp add: reached_def)
  then have "expected st (butlast q) = Some Dir"
    by (simp add: expected_def butlast_conv_take)
  ultimately show ?thesis by simp
qed

lemma wf_walk_output:
  assumes wf: "wf_fs st1" and d: "lookup st1 D = Some Dir" and below: "\<forall>p\<in>keys st1. \<not> strict_prefix D p"
    and es: "mirror n st1 [] = Some es"
  shows "wf_fs (st1 @ es)"
proof -
  have dist1: "distinct (map fst st1)" using wf by (simp add: wf_fs_def)
  have under: "strict_prefix D p" if "p \<in> keys es" for p
  proof -
    from mirror_keys(1) [OF es] that have "prefix D p" "length D < length p" by auto
    then show ?thesis by (auto simp: strict_prefix_def)
  qed
  have dist: "distinct (map fst (st1 @ es))"
    using dist1 mirror_distinct(1) [OF dist1 es] under below by auto
  have "p \<noteq> [] \<and> lookup (st1 @ es) (butlast p) = Some Dir" if "(p, x) \<in> set (st1 @ es)" for p x
  proof (cases "(p, x) \<in> set st1")
    case True
    with wf have "p \<noteq> []" "lookup st1 (butlast p) = Some Dir" by (auto simp: wf_fs_def)
    then show ?thesis using lookup_append_left by blast
  next
    case False
    with that have px: "(p, x) \<in> set es" by simp
    then obtain q where q: "p = D @ q" "q \<noteq> []"
      using under [of p] by (force simp: strict_prefix_def prefix_def)
    with px mirror_entries(1) [OF es, of q x] have r: "reached st1 [] q" by simp
    show ?thesis
    proof (cases "butlast q = []")
      case True
      with q d show ?thesis by (simp add: butlast_append lookup_append_left)
    next
      case False
      from reached_parent [OF r False] mirror_entries(1) [OF es, of "butlast q" Dir] False
      have "(D @ butlast q, Dir) \<in> set (st1 @ es)" by simp
      with key_lookup [OF dist] q False show ?thesis by (simp add: butlast_append)
    qed
  qed
  with dist show ?thesis by (auto simp: wf_fs_def)
qed

lemma ensure_dir_frame:
  "ensure_dir st p = Inr st' \<Longrightarrow> lookup st' q \<noteq> lookup st q \<Longrightarrow> prefix q p \<and> lookup st' q = Some Dir"
  using mkdir_from_frame [of "[]" p st st' q]
  by (auto simp: ensure_dir_def mkdir_p_def split: if_splits)

lemma ensure_dir_target:
  "ensure_dir st p = Inr st' \<Longrightarrow> p \<noteq> [] \<Longrightarrow> \<not> is_file (lookup st p) \<Longrightarrow> lookup st' p = Some Dir"
  using mkdir_from_target [of "[]" p st st']
  by (cases "lookup st p") (auto simp: ensure_dir_def mkdir_p_def exists_sync_def split: if_splits node.splits)

subsection \<open>Properties of the walk\<close>

lemma walk_top:
  assumes "distinct (map fst st0)" "lookup st0 D = Some Dir" "\<forall>p\<in>keys st0. \<not> strict_prefix D p"
  shows "copy_files n [] D st0 = map_option (\<lambda>es. Inr (st0 @ es)) (mirror n st0 [])"
  using walk_refine_gen [OF assms, of "[]" "[]" n] by simp

lemma reached_root_names:
  assumes "reached st [] q"
  shows "set (butlast q) \<inter> set (exclude_dirs cfg) = {}"
proof -
  have "c \<notin> set (exclude_dirs cfg)" if "c \<in> set (butlast q)" for c
  proof -
    from that obtain k where k: "k < length q - 1" "c = q ! k"
      by (auto simp: in_set_conv_nth nth_butlast)
    then have "Suc k < length q" by simp
    with assms have "basename (take (Suc k) q) \<notin> set (exclude_dirs cfg)"
      by (simp add: reached_def)
    moreover have "basename (take (Suc k) q) = c"
      using k \<open>Suc k < length q\<close> by (simp add: basename_def take_Suc_conv_app_nth)
    ultimately show ?thesis by simp
  qed
  then show ?thesis by blast
qed

lemma demo_walk: "copy_files 3 [] D demo_fs = Some (Inr (demo_fs @ demo_out))"
  by code_simp

text \<open>
  C2. Refinement: on a tree whose build directory exists and is empty, the walk of
  \<open>copyFiles('.', 'dist')\<close> leaves the tree as it was and appends exactly the entries
  of the mirror, in the order of the directory listings. Reading the live tree while
  writing into \<open>dist\<close> makes no difference because \<open>dist\<close> is excluded by name.
\<close>

lemma copy_files_refines_mirror:
  assumes "distinct (map fst st0)" "lookup st0 D = Some Dir" "\<forall>p\<in>keys st0. \<not> strict_prefix D p"
  shows "copy_files n [] D st0 = map_option (\<lambda>es. Inr (st0 @ es)) (mirror n st0 [])"
  using walk_refine_gen [OF assms, of "[]" "[]" n] by simp

lemma copy_files_refines_mirror_witness:
  "copy_files 3 [] D demo_fs = map_option (\<lambda>es. Inr (demo_fs @ es)) (mirror 3 demo_fs [])"
proof -
  have h: "distinct (map fst demo_fs)" "lookup demo_fs D = Some Dir" "\<forall>p\<in>keys demo_fs. \<not> strict_prefix D p"
    by (simp_all add: demo_fs_def lookup_def)
  show ?thesis by (rule copy_files_refines_mirror [OF h])
qed

text \<open>
  C3. Completeness and exclusion: after the walk, an entry \<open>dist/q\<close> exists exactly when
  the source path \<open>q\<close> lies under non-excluded directories, is not itself excluded,
  and the entry is a directory for a directory and the final (minified when shorter)
  content for a file.
\<close>

lemma walk_output_exact:
  assumes "distinct (map fst st0)" "lookup st0 D = Some Dir" "\<forall>p\<in>keys st0. \<not> strict_prefix D p"
    and "copy_files n [] D st0 = Some (Inr st')"
  shows "(D @ q, x) \<in> set st' \<and> q \<noteq> [] \<longleftrightarrow> reached st0 [] q \<and> q \<noteq> [] \<and> expected st0 q = Some x"
proof -
  from walk_top [OF assms(1-3), of n] assms(4) obtain es where
    es: "mirror n st0 [] = Some es" "st' = st0 @ es" by (cases "mirror n st0 []") auto
  have "(D @ q, x) \<notin> set st0" if "q \<noteq> []"
    using assms(3) that by (force simp: strict_prefix_def)
  with es mirror_entries(1) [OF es(1), of q x] show ?thesis by auto
qed

lemma walk_output_exact_witness:
  "reached demo_fs [] [''assets'', ''S.CSS''] \<and> expected demo_fs [''assets'', ''S.CSS''] = Some (File ''a{color:red}'')"
proof -
  have h: "distinct (map fst demo_fs)" "lookup demo_fs D = Some Dir" "\<forall>p\<in>keys demo_fs. \<not> strict_prefix D p"
    by (simp_all add: demo_fs_def lookup_def)
  have "(D @ [''assets'', ''S.CSS''], File ''a{color:red}'') \<in> set (demo_fs @ demo_out)"
    by (simp add: demo_out_def)
  then show ?thesis
    using walk_output_exact [OF h demo_walk, of "[''assets'', ''S.CSS'']" "File ''a{color:red}''"] by simp
qed

text \<open>
  C9. With fuel above the depth of the tree the walk returns and raises no exception.
\<close>

lemma walk_total:
  assumes "distinct (map fst st0)" "lookup st0 D = Some Dir" "\<forall>p\<in>keys st0. \<not> strict_prefix D p"
    and "0 < n" "\<forall>p\<in>keys st0. length p < n"
  shows "\<exists>st'. copy_files n [] D st0 = Some (Inr st')"
proof -
  have "mirror n st0 [] \<noteq> None" using mirror_enough_fuel(1) [of n st0 "[]"] assms(4,5) by simp
  then show ?thesis using walk_top [OF assms(1-3), of n] by auto
qed

lemma walk_total_witness: "\<exists>st'. copy_files 3 [] D demo_fs = Some (Inr st')"
proof -
  have h: "distinct (map fst demo_fs)" "lookup demo_fs D = Some Dir" "\<forall>p\<in>keys demo_fs. \<not> strict_prefix D p"
    by (simp_all add: demo_fs_def lookup_def)
  have "\<forall>p\<in>keys demo_fs. length p < 3" by (simp add: demo_fs_def)
  then show ?thesis using walk_total [OF h] by simp
qed

text \<open>
  C4. Nothing below an excluded directory name and no excluded file name reaches
  \<open>dist\<close>.
\<close>

lemma walk_skips_excluded:
  assumes "distinct (map fst st0)" "lookup st0 D = Some Dir" "\<forall>p\<in>keys st0. \<not> strict_prefix D p"
    and "copy_files n [] D st0 = Some (Inr st')" "(D @ q, x) \<in> set st'" "q \<noteq> []"
  shows "set (butlast q) \<inter> set (exclude_dirs cfg) = {} \<and>
    (x = Dir \<longrightarrow> last q \<notin> set (exclude_dirs cfg)) \<and>
    (\<forall>c. x = File c \<longrightarrow> last q \<notin> set (exclude_files cfg))"
proof -
  from walk_top [OF assms(1-3), of n] assms(4) obtain es where
    es: "mirror n st0 [] = Some es" "st' = st0 @ es" by (cases "mirror n st0 []") auto
  have "(D @ q, x) \<notin> set st0"
    using assms(3,6) by (force simp: strict_prefix_def)
  with es assms(5,6) mirror_entries(1) [OF es(1), of q x]
  have "reached st0 [] q" "expected st0 q = Some x" by auto
  then show ?thesis using reached_root_names assms(6)
    by (auto simp: expected_def basename_def split: option.splits node.splits if_splits)
qed

lemma walk_skips_excluded_witness:
  "set (butlast [''assets'', ''S.CSS'']) \<inter> set (exclude_dirs cfg) = {} \<and>
   last [''assets'', ''S.CSS''] \<notin> set (exclude_files cfg)"
proof -
  have h: "distinct (map fst demo_fs)" "lookup demo_fs D = Some Dir" "\<forall>p\<in>keys demo_fs. \<not> strict_prefix D p"
    by (simp_all add: demo_fs_def lookup_def)
  have "(D @ [''assets'', ''S.CSS''], File ''a{color:red}'') \<in> set (demo_fs @ demo_out)"
    by (simp add: demo_out_def)
  then show ?thesis
    using walk_skips_excluded [OF h demo_walk, of "[''assets'', ''S.CSS'']"] by simp
qed

end
