(* ===== verification/Build.thy ===== *)
theory Build
  imports Walker
begin

text \<open>
  The orchestration of \<open>src/build-simple.js\<close>: the module-level creation of the build
  directory (lines 20--23), \<open>build\<close> (lines 181--212) with its clean step, the walk
  \<open>copyFiles(config.sourceDir, config.buildDir)\<close>, the generators
  \<open>generateSitemap\<close> (lines 132--164) and \<open>generateRobotsTxt\<close> (lines 167--178),
  and \<open>getDirectorySize\<close> (lines 215--235). The date of the sitemap, which the code
  reads from the clock, is a parameter. An exception anywhere ends the build
  (\<open>process.exit(1)\<close>): it is the \<open>Inl\<close> result.
\<close>

subsection \<open>Generators\<close>

definition nl :: string where
  "nl = [CHR 0x0A]"

definition sitemap_pages :: "string list" where
  "sitemap_pages = ['''', ''about'', ''academics'', ''admissions'', ''gallery'', ''news'', ''contact'']"

definition base_url :: string where
  "base_url = ''https://excelacademy.edu''"

text \<open>Line 150: the empty page name is falsy and stands for the home page.\<close>

definition page_url :: "string \<Rightarrow> string" where
  "page_url page = (if page \<noteq> [] then ''/'' @ page @ ''.html'' else ''/index.html'')"

text \<open>Lines 151--156: the text one loop iteration appends.\<close>

definition url_entry :: "string \<Rightarrow> string \<Rightarrow> string" where
  "url_entry date page =
     ''  <url>'' @ nl @
     ''    <loc>'' @ base_url @ page_url page @ ''</loc>'' @ nl @
     ''    <lastmod>'' @ date @ ''</lastmod>'' @ nl @
     ''    <changefreq>weekly</changefreq>'' @ nl @
     ''    <priority>0.8</priority>'' @ nl @
     ''  </url>'' @ nl"

definition sitemap_head :: string where
  "sitemap_head =
     ''<?xml version=\"1.0\" encoding=\"UTF-8\"?>'' @ nl @
     ''<urlset xmlns=\"http://www.sitemaps.org/schemas/sitemap/0.9\">'' @ nl"

text \<open>Lines 146--159 over a page list; the code runs them on the fixed list of lines 133--141.\<close>

definition sitemap_of :: "string list \<Rightarrow> string \<Rightarrow> string" where
  "sitemap_of pages date = foldl (\<lambda>s page. s @ url_entry date page) sitemap_head pages @ ''</urlset>''"

definition sitemap_text :: "string \<Rightarrow> string" where
  "sitemap_text date = sitemap_of sitemap_pages date"

definition generate_sitemap :: "string \<Rightarrow> fs \<Rightarrow> error + fs" where
  "generate_sitemap date st = write_file st (build_dir cfg @ [''sitemap.xml'']) (sitemap_text date)"

definition robots_text :: string where
  "robots_text = js_trim (''# https://www.robotstxt.org/robotstxt.html'' @ nl @
     ''User-agent: *'' @ nl @ ''Allow: /'' @ nl @ nl @
     ''Sitemap: https://excelacademy.edu/sitemap.xml'' @ nl @ ''  '')"

definition generate_robots_txt :: "fs \<Rightarrow> error + fs" where
  "generate_robots_txt st = write_file st (build_dir cfg @ [''robots.txt'']) robots_text"

subsection \<open>getDirectorySize\<close>

text \<open>
  Lines 215--235: \<open>readdirSync(dir, {withFileTypes: true})\<close> folded with
  \<open>reduce\<close>; a directory entry adds the result of the recursive call, any other entry
  its size in bytes and one file. The recursion descends along the keys of the tree, so
  it terminates: the measure is the length of the longest key minus the depth.
\<close>

definition max_depth :: "fs \<Rightarrow> nat" where
  "max_depth st = foldr (\<lambda>e m. max (length (fst e)) m) st 0"

function dir_size :: "fs \<Rightarrow> path \<Rightarrow> nat \<times> nat" where
  "dir_size st dir =
     foldl (\<lambda>acc name.
         (let file_path = dir @ [name] in
          case lookup st file_path of
            Some Dir \<Rightarrow> (let ds = dir_size st file_path in (fst acc + fst ds, snd acc + snd ds))
          | Some (File c) \<Rightarrow> (fst acc + length c, snd acc + 1)
          | None \<Rightarrow> acc))
       (0, 0) (children st dir)"
  by pat_completeness auto

termination dir_size
proof (relation "measure (\<lambda>(st, dir). Suc (max_depth st) - length dir)")
  fix st dir acc name file_path
  assume "name \<in> set (children st dir)" "file_path = dir @ [name]"
  moreover have "\<forall>p\<in>keys st. length p \<le> max_depth st"
    by (induction st) (force simp: max_depth_def le_max_iff_disj)+
  ultimately have "length (dir @ [name]) \<le> max_depth st"
    using children_mem by force
  with \<open>file_path = dir @ [name]\<close> show "((st, file_path), st, dir) \<in> measure (\<lambda>(st, dir). Suc (max_depth st) - length dir)"
    by simp
qed simp

definition get_directory_size :: "fs \<Rightarrow> path \<Rightarrow> error + nat \<times> nat" where
  "get_directory_size st dir =
     (case readdir st dir of Inl e \<Rightarrow> Inl e | Inr files \<Rightarrow> Inr (dir_size st dir))"

subsection \<open>The build\<close>

text \<open>Lines 20--23, run when the module is loaded.\<close>

definition prepare :: "fs \<Rightarrow> error + fs" where
  "prepare st = ensure_dir st (build_dir cfg)"

text \<open>Lines 186--190: the clean step.\<close>

definition clean :: "fs \<Rightarrow> error + fs" where
  "clean st =
     (if exists_sync st (build_dir cfg) then
        (case rm_rf st (build_dir cfg) of Inl e \<Rightarrow> Inl e | Inr st1 \<Rightarrow> mkdir_p st1 (build_dir cfg))
      else Inr st)"

text \<open>
  Lines 181--212 after the module-level step: the final state and the size report of
  line 205, \<open>None\<close> when the walk runs out of fuel.
\<close>

definition build :: "nat \<Rightarrow> string \<Rightarrow> fs \<Rightarrow> (error + fs \<times> (nat \<times> nat)) option" where
  "build n date st =
     (case prepare st of
        Inl e \<Rightarrow> Some (Inl e)
      | Inr st0 \<Rightarrow>
     (case clean st0 of
        Inl e \<Rightarrow> Some (Inl e)
      | Inr st1 \<Rightarrow>
     (case copy_files n (source_dir cfg) (build_dir cfg) st1 of
        None \<Rightarrow> None
      | Some (Inl e) \<Rightarrow> Some (Inl e)
      | Some (Inr st2) \<Rightarrow>
     (case generate_sitemap date st2 of
        Inl e \<Rightarrow> Some (Inl e)
      | Inr st3 \<Rightarrow>
     (case generate_robots_txt st3 of
        Inl e \<Rightarrow> Some (Inl e)
      | Inr st4 \<Rightarrow>
     (case get_directory_size st4 (build_dir cfg) of
        Inl e \<Rightarrow> Some (Inl e)
      | Inr sz \<Rightarrow> Some (Inr (st4, sz))))))))"

text \<open>The tree after the clean step: everything below \<open>dist\<close> removed, \<open>dist\<close> recreated last.\<close>

definition cleaned :: "fs \<Rightarrow> fs" where
  "cleaned st = filter (\<lambda>(p, n). \<not> prefix D p) st @ [(D, Dir)]"

text \<open>
  The list of \<open><loc>\<close> values of a sitemap: the text after each \<open><loc>\<close> up to the
  next \<open><\<close>. It reads the generated file back for the round-trip property.
\<close>

function sitemap_locs :: "string \<Rightarrow> string list" where
  "sitemap_locs [] = []"
| "sitemap_locs (c # s) =
     (if starts_with ''<loc>'' (c # s) then
        (let r = drop 4 s in
         takeWhile (\<lambda>x. x \<noteq> CHR ''<'') r # sitemap_locs (dropWhile (\<lambda>x. x \<noteq> CHR ''<'') r))
      else sitemap_locs s)"
  by pat_completeness auto

termination
  by (relation "measure length") (auto simp: le_imp_less_Suc order.trans [OF length_dropWhile_le])

text \<open>A source tree with a stale file left in \<open>dist\<close> by an earlier build.\<close>

definition demo_stale :: fs where
  "demo_stale = demo_fs @ [([''dist'', ''old.txt''], File ''stale'')]"

declare dir_size.simps [simp del]

subsection \<open>Lemmas: the steps of the build\<close>

lemma source_dir_cfg [simp]: "source_dir cfg = []"
  by (simp add: cfg_def)

lemma lookup_drop_D: "lookup (filter (\<lambda>(p, n). \<not> prefix D p) st) D = None"
  by (auto simp: lookup_def map_of_eq_None_iff)

lemma lookup_cleaned: "\<not> prefix D q \<Longrightarrow> lookup (cleaned st) q = lookup st q"
proof -
  assume q: "\<not> prefix D q"
  then have "q \<noteq> D" by auto
  have "map_of (filter (\<lambda>(p, n). \<not> prefix D p) st) q = map_of st q"
    using q by (induction st) auto
  with \<open>q \<noteq> D\<close> show ?thesis
    by (simp add: cleaned_def lookup_def map_of_append map_add_def split: option.splits)
qed

lemma prepare_clean: "\<exists>st0. prepare st = Inr st0 \<and> clean st0 = Inr (cleaned st)"
proof -
  have drop_snoc: "filter (\<lambda>(p, n). \<not> prefix D p) (st @ [(D, Dir)]) = filter (\<lambda>(p, n). \<not> prefix D p) st"
    by simp
  have cl: "clean st0 = Inr (cleaned st)"
    if "lookup st0 D \<noteq> None" "filter (\<lambda>(p, n). \<not> prefix D p) st0 = filter (\<lambda>(p, n). \<not> prefix D p) st" for st0
    using that mkdir_p_fresh [OF _ lookup_drop_D, of st]
    by (simp add: clean_def exists_sync_def rm_rf_def cleaned_def)
  show ?thesis
  proof (cases "lookup st D")
    case None
    then have "prepare st = Inr (st @ [(D, Dir)])"
      using mkdir_p_fresh [of D st] by (simp add: prepare_def ensure_dir_def exists_sync_def)
    moreover have "lookup (st @ [(D, Dir)]) D \<noteq> None"
      using lookup_None_key [OF None] by (simp add: lookup_snoc_same)
    ultimately show ?thesis using cl drop_snoc by blast
  next
    case (Some nd)
    then have "prepare st = Inr st" by (simp add: prepare_def ensure_dir_def exists_sync_def)
    with Some cl show ?thesis by blast
  qed
qed

lemma cleaned_wf:
  assumes "distinct (map fst st)"
  shows "distinct (map fst (cleaned st))" "lookup (cleaned st) D = Some Dir"
    "\<forall>p\<in>keys (cleaned st). \<not> strict_prefix D p"
proof -
  have "D \<notin> keys (filter (\<lambda>(p, n). \<not> prefix D p) st)" by auto
  then show "distinct (map fst (cleaned st))" "lookup (cleaned st) D = Some Dir"
    using assms by (auto simp: cleaned_def distinct_map_filter lookup_snoc_same)
  show "\<forall>p\<in>keys (cleaned st). \<not> strict_prefix D p"
    by (auto simp: cleaned_def strict_prefix_def)
qed

lemma wf_cleaned: "wf_fs st \<Longrightarrow> wf_fs (cleaned st)"
proof -
  assume wf: "wf_fs st"
  then have dist: "distinct (map fst st)" by (simp add: wf_fs_def)
  have "q \<noteq> [] \<and> lookup (cleaned st) (butlast q) = Some Dir" if "(q, nd) \<in> set (cleaned st)" for q nd
  proof (cases "q = D")
    case True
    then show ?thesis by simp
  next
    case False
    with that have q: "(q, nd) \<in> set st" "\<not> prefix D q" by (auto simp: cleaned_def)
    with wf have "q \<noteq> []" "lookup st (butlast q) = Some Dir" by (auto simp: wf_fs_def)
    moreover have "\<not> prefix D (butlast q)"
      using q(2) prefix_order.trans [OF _ prefix_butlast_self] by blast
    ultimately show ?thesis by (simp add: lookup_cleaned)
  qed
  with cleaned_wf(1) [OF dist] show ?thesis by (auto simp: wf_fs_def)
qed

lemma out_dir_entry:
  assumes "mirror n st1 [] = Some es" "\<forall>p\<in>keys st1. \<not> strict_prefix D p"
    and "lookup (st1 @ es) (D @ q) = Some Dir" "q \<noteq> []"
  shows "lookup st1 q = Some Dir"
proof -
  have "D @ q \<notin> keys st1" using assms(2,4) by (force simp: strict_prefix_def)
  then have "map_of st1 (D @ q) = None" by (simp add: map_of_eq_None_iff)
  with assms(3) have "map_of es (D @ q) = Some Dir"
    by (simp add: lookup_def map_of_append map_add_def split: option.splits)
  then have "(D @ q, Dir) \<in> set es" by (rule map_of_SomeD)
  with mirror_entries(1) [OF assms(1), of q Dir] have "expected st1 q = Some Dir" by simp
  then show ?thesis by (auto simp: expected_def split: option.splits node.splits if_splits)
qed

lemma write_out:
  assumes "lookup st D = Some Dir" "lookup st (D @ [x]) \<noteq> Some Dir"
  shows "write_file st (D @ [x]) c = Inr (put st (D @ [x]) (File c))"
  using assms by (simp add: write_file_def split: option.splits node.splits)

lemma generators:
  assumes "mirror n (cleaned st) [] = Some es" "distinct (map fst st)"
    and "lookup st [''sitemap.xml''] \<noteq> Some Dir" "lookup st [''robots.txt''] \<noteq> Some Dir"
  shows "generate_sitemap date (cleaned st @ es) = Inr (put (cleaned st @ es) (D @ [''sitemap.xml'']) (File (sitemap_text date)))"
    "generate_robots_txt (put (cleaned st @ es) (D @ [''sitemap.xml'']) (File (sitemap_text date))) =
       Inr (put (put (cleaned st @ es) (D @ [''sitemap.xml'']) (File (sitemap_text date))) (D @ [''robots.txt'']) (File robots_text))"
proof -
  note wf = cleaned_wf [OF assms(2)]
  have D: "lookup (cleaned st @ es) D = Some Dir" by (rule lookup_append_left [OF wf(2)])
  have no_dir: "lookup (cleaned st @ es) (D @ [x]) \<noteq> Some Dir" if "lookup st [x] \<noteq> Some Dir" "x \<noteq> ''dist''" for x
  proof
    assume "lookup (cleaned st @ es) (D @ [x]) = Some Dir"
    from out_dir_entry [OF assms(1) wf(3) this] have "lookup (cleaned st) [x] = Some Dir" by simp
    with that lookup_cleaned [of "[x]" st] show False by simp
  qed
  show "generate_sitemap date (cleaned st @ es) = Inr (put (cleaned st @ es) (D @ [''sitemap.xml'']) (File (sitemap_text date)))"
    using write_out [OF D no_dir [OF assms(3)]] by (simp add: generate_sitemap_def)
  show "generate_robots_txt (put (cleaned st @ es) (D @ [''sitemap.xml'']) (File (sitemap_text date))) =
       Inr (put (put (cleaned st @ es) (D @ [''sitemap.xml'']) (File (sitemap_text date))) (D @ [''robots.txt'']) (File robots_text))"
    using write_out [of "put (cleaned st @ es) (D @ [''sitemap.xml'']) (File (sitemap_text date))" "''robots.txt''" robots_text]
      D no_dir [OF assms(4)]
    by (simp add: generate_robots_txt_def lookup_put)
qed

lemma build_Inr:
  assumes dist: "distinct (map fst st)" and b: "build n date st = Some (Inr (st', sz))"
  obtains es st3 where "mirror n (cleaned st) [] = Some es"
    "write_file (cleaned st @ es) (D @ [''sitemap.xml'']) (sitemap_text date) = Inr st3"
    "write_file st3 (D @ [''robots.txt'']) robots_text = Inr st'" "sz = dir_size st' D"
proof -
  obtain st0 where st0: "prepare st = Inr st0" "clean st0 = Inr (cleaned st)"
    using prepare_clean by blast
  from b st0 walk_top [OF cleaned_wf [OF dist], of n] that show thesis
    by (auto simp: build_def generate_sitemap_def generate_robots_txt_def get_directory_size_def
        split: option.splits sum.splits)
qed

lemma build_out:
  assumes wf: "wf_fs st" and b: "build n date st = Some (Inr (st', sz))"
  shows "wf_fs st' \<and> sz = dir_size st' D"
proof -
  have dist: "distinct (map fst st)" using wf by (simp add: wf_fs_def)
  note cw = cleaned_wf [OF dist]
  obtain es st3 where es: "mirror n (cleaned st) [] = Some es"
    and s3: "write_file (cleaned st @ es) (D @ [''sitemap.xml'']) (sitemap_text date) = Inr st3"
    and s4: "write_file st3 (D @ [''robots.txt'']) robots_text = Inr st'" and sz: "sz = dir_size st' D"
    using build_Inr [OF dist b] by blast
  have "wf_fs (cleaned st @ es)"
    by (rule wf_walk_output [OF wf_cleaned [OF wf] cw(2,3) es])
  with s3 s4 have "wf_fs st'" by (blast intro: wf_write_file)
  with sz show ?thesis by simp
qed

lemma filter_put_below:
  "prefix D k \<Longrightarrow> filter (\<lambda>(p, n). \<not> prefix D p) (put xs k v) = filter (\<lambda>(p, n). \<not> prefix D p) xs"
  unfolding put_def by (induction xs) auto

lemma cleaned_output:
  assumes dist: "distinct (map fst st)" and b: "build n date st = Some (Inr (st', sz))"
  shows "cleaned st' = cleaned st"
proof -
  obtain es st3 where es: "mirror n (cleaned st) [] = Some es"
    and s3: "write_file (cleaned st @ es) (D @ [''sitemap.xml'']) (sitemap_text date) = Inr st3"
    and s4: "write_file st3 (D @ [''robots.txt'']) robots_text = Inr st'"
    using build_Inr [OF dist b] by blast
  have "filter (\<lambda>(p, n). \<not> prefix D p) es = []"
    using mirror_keys(1) [OF es] by (auto simp: filter_empty_conv)
  then have "filter (\<lambda>(p, n). \<not> prefix D p) (cleaned st @ es) = filter (\<lambda>(p, n). \<not> prefix D p) st"
    by (simp add: cleaned_def)
  moreover have "st3 = put (cleaned st @ es) (D @ [''sitemap.xml'']) (File (sitemap_text date))"
    using write_file_Inr [OF s3] by simp
  moreover have "st' = put st3 (D @ [''robots.txt'']) (File robots_text)"
    using write_file_Inr [OF s4] by simp
  ultimately have "filter (\<lambda>(p, n). \<not> prefix D p) st' = filter (\<lambda>(p, n). \<not> prefix D p) st"
    by (simp add: filter_put_below)
  then show ?thesis by (simp add: cleaned_def)
qed

lemma build_cleaned:
  assumes "cleaned st1 = cleaned st2"
  shows "build n date st1 = build n date st2"
proof -
  obtain a where a: "prepare st1 = Inr a" "clean a = Inr (cleaned st1)" using prepare_clean by blast
  obtain b where b: "prepare st2 = Inr b" "clean b = Inr (cleaned st2)" using prepare_clean by blast
  from a b assms show ?thesis by (simp add: build_def)
qed

subsection \<open>Lemmas: getDirectorySize\<close>

lemma dir_size_sum:
  "dir_size st dir =
     (sum_list (map (\<lambda>name. case lookup st (dir @ [name]) of
         Some Dir \<Rightarrow> fst (dir_size st (dir @ [name])) | Some (File c) \<Rightarrow> length c | None \<Rightarrow> 0) (children st dir)),
      sum_list (map (\<lambda>name. case lookup st (dir @ [name]) of
         Some Dir \<Rightarrow> snd (dir_size st (dir @ [name])) | Some (File c) \<Rightarrow> 1 | None \<Rightarrow> 0) (children st dir)))"
  (is "_ = (sum_list (map ?F _), sum_list (map ?G _))")
proof -
  have "dir_size st dir = foldl (\<lambda>acc x. (fst acc + ?F x, snd acc + ?G x)) (0, 0) (children st dir)"
    by (subst dir_size.simps, rule foldl_cong) (auto simp: Let_def split: option.splits node.splits)
  then show ?thesis by (simp add: foldl_pair_sum)
qed

lemma dir_size_entry:
  assumes "wf_fs st" "lookup st p = Some nd"
    and "nd = Dir \<Longrightarrow> dir_size st p =
      (sum_list (map (node_bytes \<circ> snd) (below st p)), sum_list (map (node_files \<circ> snd) (below st p)))"
  shows "(case lookup st p of Some Dir \<Rightarrow> fst (dir_size st p) | Some (File c) \<Rightarrow> length c | None \<Rightarrow> 0) =
      node_bytes nd + sum_list (map (node_bytes \<circ> snd) (below st p)) \<and>
    (case lookup st p of Some Dir \<Rightarrow> snd (dir_size st p) | Some (File c) \<Rightarrow> 1 | None \<Rightarrow> 0) =
      node_files nd + sum_list (map (node_files \<circ> snd) (below st p))"
  using assms file_no_below [OF assms(1)] by (cases nd) simp_all

lemma dir_size_below:
  "wf_fs st \<Longrightarrow> dir_size st d =
     (sum_list (map (node_bytes \<circ> snd) (below st d)), sum_list (map (node_files \<circ> snd) (below st d)))"
proof (induction st d rule: dir_size.induct)
  case (1 st dir)
  have entry: "(case lookup st (dir @ [i]) of
         Some Dir \<Rightarrow> fst (dir_size st (dir @ [i])) | Some (File c) \<Rightarrow> length c | None \<Rightarrow> 0) =
       (case lookup st (dir @ [i]) of Some nd \<Rightarrow> (node_bytes \<circ> snd) (dir @ [i], nd) | None \<Rightarrow> 0)
         + sum_list (map (node_bytes \<circ> snd) (below st (dir @ [i]))) \<and>
      (case lookup st (dir @ [i]) of
         Some Dir \<Rightarrow> snd (dir_size st (dir @ [i])) | Some (File c) \<Rightarrow> 1 | None \<Rightarrow> 0) =
       (case lookup st (dir @ [i]) of Some nd \<Rightarrow> (node_files \<circ> snd) (dir @ [i], nd) | None \<Rightarrow> 0)
         + sum_list (map (node_files \<circ> snd) (below st (dir @ [i])))"
    if i: "i \<in> set (children st dir)" for i
  proof -
    obtain nd where nd: "lookup st (dir @ [i]) = Some nd"
      using i children_iff by blast
    have "nd = Dir \<Longrightarrow> dir_size st (dir @ [i]) =
      (sum_list (map (node_bytes \<circ> snd) (below st (dir @ [i]))), sum_list (map (node_files \<circ> snd) (below st (dir @ [i]))))"
      using "1.IH" [OF i refl] nd "1.prems" by (simp add: comp_def)
    from dir_size_entry [OF "1.prems" nd this] nd show ?thesis by simp
  qed
  have "map (\<lambda>name. case lookup st (dir @ [name]) of
         Some Dir \<Rightarrow> fst (dir_size st (dir @ [name])) | Some (File c) \<Rightarrow> length c | None \<Rightarrow> 0) (children st dir) =
      map (\<lambda>i. (case lookup st (dir @ [i]) of Some nd \<Rightarrow> (node_bytes \<circ> snd) (dir @ [i], nd) | None \<Rightarrow> 0)
         + sum_list (map (node_bytes \<circ> snd) (below st (dir @ [i])))) (children st dir)"
    "map (\<lambda>name. case lookup st (dir @ [name]) of
         Some Dir \<Rightarrow> snd (dir_size st (dir @ [name])) | Some (File c) \<Rightarrow> 1 | None \<Rightarrow> 0) (children st dir) =
      map (\<lambda>i. (case lookup st (dir @ [i]) of Some nd \<Rightarrow> (node_files \<circ> snd) (dir @ [i], nd) | None \<Rightarrow> 0)
         + sum_list (map (node_files \<circ> snd) (below st (dir @ [i])))) (children st dir)"
    by (rule map_cong [OF refl], erule entry [THEN conjunct1]) (rule map_cong [OF refl], erule entry [THEN conjunct2])
  then show ?case
    by (simp only: dir_size_sum [of st dir] below_sum [OF "1.prems", where d = dir])
qed

subsection \<open>Lemmas: the sitemap\<close>

lemma locs_no_lt: "CHR ''<'' \<notin> set xs \<Longrightarrow> sitemap_locs (xs @ ys) = sitemap_locs ys"
  by (induction xs) auto

lemma locs_url_entry:
  assumes "CHR ''<'' \<notin> set date" "CHR ''<'' \<notin> set page"
  shows "sitemap_locs (url_entry date page @ rest) = (base_url @ page_url page) # sitemap_locs rest"
proof -
  have "takeWhile (\<lambda>x. x \<noteq> CHR ''<'') (page @ ys) = page @ takeWhile (\<lambda>x. x \<noteq> CHR ''<'') ys"
    "dropWhile (\<lambda>x. x \<noteq> CHR ''<'') (page @ ys) = dropWhile (\<lambda>x. x \<noteq> CHR ''<'') ys" for ys
    using assms(2) by (auto intro: takeWhile_append2 dropWhile_append2)
  with assms(1) show ?thesis
    by (simp add: url_entry_def nl_def base_url_def page_url_def locs_no_lt)
qed

lemma locs_entries:
  "CHR ''<'' \<notin> set date \<Longrightarrow> \<forall>p\<in>set ps. CHR ''<'' \<notin> set p \<Longrightarrow>
   sitemap_locs (concat (map (url_entry date) ps) @ rest) = map (\<lambda>p. base_url @ page_url p) ps @ sitemap_locs rest"
  by (induction ps) (simp_all add: locs_url_entry)

subsection \<open>Properties of the build\<close>

text \<open>
  C1. The whole build of \<open>build-simple.js\<close> on a tree with distinct paths, enough fuel,
  and no directories named \<open>sitemap.xml\<close> or \<open>robots.txt\<close> at the root returns
  without an exception; its final tree is the cleaned tree (everything old below
  \<open>dist\<close> removed, \<open>dist\<close> recreated) followed by the mirror of the sources and the two
  generated files, and the report is the size of \<open>dist\<close> in that tree.
\<close>

theorem build_result:
  assumes "distinct (map fst st)" "1 < n" "\<forall>p\<in>keys st. length p < n"
    and "lookup st [''sitemap.xml''] \<noteq> Some Dir" "lookup st [''robots.txt''] \<noteq> Some Dir"
  shows "\<exists>es. mirror n (cleaned st) [] = Some es \<and>
    build n date st =
      (let st4 = put (put (cleaned st @ es) (D @ [''sitemap.xml'']) (File (sitemap_text date)))
                   (D @ [''robots.txt'']) (File robots_text)
       in Some (Inr (st4, dir_size st4 D)))"
proof -
  note wf = cleaned_wf [OF assms(1)]
  have "\<forall>p\<in>keys (cleaned st). prefix [] p \<longrightarrow> length p < length [] + n"
    using assms(2,3) by (auto simp: cleaned_def)
  then obtain es where es: "mirror n (cleaned st) [] = Some es"
    using mirror_enough_fuel(1) [of n "cleaned st" "[]"] assms(2) by fastforce
  obtain st0 where st0: "prepare st = Inr st0" "clean st0 = Inr (cleaned st)"
    using prepare_clean by blast
  have walk: "copy_files n [] D (cleaned st) = Some (Inr (cleaned st @ es))"
    using walk_top [OF wf, of n] es by simp
  define st4 where "st4 = put (put (cleaned st @ es) (D @ [''sitemap.xml'']) (File (sitemap_text date)))
                   (D @ [''robots.txt'']) (File robots_text)"
  have "lookup st4 D = Some Dir"
    using lookup_append_left [OF wf(2)] by (simp add: st4_def lookup_put)
  then have "get_directory_size st4 D = Inr (dir_size st4 D)"
    by (simp add: get_directory_size_def readdir_def)
  with es st0 walk generators [OF es assms(1,4,5)] show ?thesis
    by (simp add: build_def st4_def Let_def)
qed

lemma build_result_witness:
  "\<exists>es. mirror 4 (cleaned demo_stale) [] = Some es \<and>
    build 4 ''2025-01-01'' demo_stale =
      (let st4 = put (put (cleaned demo_stale @ es) (D @ [''sitemap.xml'']) (File (sitemap_text ''2025-01-01'')))
                   (D @ [''robots.txt'']) (File robots_text)
       in Some (Inr (st4, dir_size st4 D)))"
proof -
  have "distinct (map fst demo_stale)" "(1::nat) < 4" "\<forall>p\<in>keys demo_stale. length p < 4"
    "lookup demo_stale [''sitemap.xml''] \<noteq> Some Dir" "lookup demo_stale [''robots.txt''] \<noteq> Some Dir"
    by (simp_all add: demo_stale_def demo_fs_def lookup_def)
  then show ?thesis by (rule build_result)
qed

text \<open>
  C5. The build writes only below \<open>dist\<close>: when it returns, the entries of the tree
  outside \<open>dist\<close> are exactly those it started with, in the same order, so the source
  tree is never modified (the "writes exclusively under the output directory" contract).
\<close>

theorem build_writes_only_dist:
  assumes "distinct (map fst st)" "build n date st = Some (Inr (st', sz))"
  shows "filter (\<lambda>(p, nd). \<not> prefix D p) st' = filter (\<lambda>(p, nd). \<not> prefix D p) st"
  using cleaned_output [OF assms] by (simp add: cleaned_def)

lemma demo_stale_wf: "wf_fs demo_stale"
  by (simp add: wf_fs_def demo_stale_def demo_fs_def lookup_def)

lemma demo_stale_builds:
  "(case build 4 ''2025-01-01'' demo_stale of Some (Inr r) \<Rightarrow> True | _ \<Rightarrow> False)"
  by code_simp

lemma demo_stale_result:
  obtains st' sz where "build 4 ''2025-01-01'' demo_stale = Some (Inr (st', sz))"
  using demo_stale_builds by (auto split: option.splits sum.splits)

lemma build_writes_only_dist_witness:
  "\<exists>st' sz. build 4 ''2025-01-01'' demo_stale = Some (Inr (st', sz)) \<and>
     filter (\<lambda>(p, nd). \<not> prefix D p) st' = filter (\<lambda>(p, nd). \<not> prefix D p) demo_stale"
proof -
  obtain st' sz where b: "build 4 ''2025-01-01'' demo_stale = Some (Inr (st', sz))"
    by (rule demo_stale_result)
  have "distinct (map fst demo_stale)" by (simp add: demo_stale_def demo_fs_def)
  with build_writes_only_dist [OF this b] b show ?thesis by blast
qed

text \<open>
  C6. The size report of line 205 is the number of bytes and the number of files
  below \<open>dist\<close> in the final tree.
\<close>

theorem build_size_report:
  assumes "wf_fs st" "build n date st = Some (Inr (st', sz))"
  shows "sz = (sum_list (map (node_bytes \<circ> snd) (below st' D)), sum_list (map (node_files \<circ> snd) (below st' D)))"
  using build_out [OF assms] dir_size_below by simp

lemma build_size_report_witness:
  "\<exists>st' sz. build 4 ''2025-01-01'' demo_stale = Some (Inr (st', sz)) \<and>
     sz = (sum_list (map (node_bytes \<circ> snd) (below st' D)), sum_list (map (node_files \<circ> snd) (below st' D)))"
proof -
  obtain st' sz where b: "build 4 ''2025-01-01'' demo_stale = Some (Inr (st', sz))"
    by (rule demo_stale_result)
  with build_size_report [OF demo_stale_wf b] show ?thesis by blast
qed

text \<open>
  C7. Idempotence: running the build again on the tree a build left behind gives the
  same tree and the same report (with the same date), because the second clean step
  removes exactly what the first run wrote and the walk skips \<open>dist\<close>.
\<close>

theorem build_idempotent:
  assumes "distinct (map fst st)" "build n date st = Some (Inr (st', sz))"
  shows "build n date st' = Some (Inr (st', sz))"
  using build_cleaned [OF cleaned_output [OF assms]] assms(2) by simp

lemma build_idempotent_witness:
  "\<exists>st' sz. build 4 ''2025-01-01'' demo_stale = Some (Inr (st', sz)) \<and>
     build 4 ''2025-01-01'' st' = Some (Inr (st', sz))"
proof -
  obtain st' sz where b: "build 4 ''2025-01-01'' demo_stale = Some (Inr (st', sz))"
    by (rule demo_stale_result)
  have "distinct (map fst demo_stale)" by (simp add: demo_stale_def demo_fs_def)
  with build_idempotent [OF this b] b show ?thesis by blast
qed

text \<open>
  C21. Round trip: reading the \<open><loc>\<close> entries back from a sitemap built by lines
  146--159 gives one URL per page of the list, in order, \<open>/index.html\<close> for the empty
  slug and \<open>/<slug>.html\<close> otherwise, whenever neither the date nor a slug contains
  \<open><\<close>. With the list \<open>['', 'about']\<close> these are exactly the two locations the spec
  names.
\<close>

theorem sitemap_roundtrip:
  assumes "CHR ''<'' \<notin> set date" "\<forall>p\<in>set pages. CHR ''<'' \<notin> set p"
  shows "sitemap_locs (sitemap_of pages date) = map (\<lambda>p. base_url @ page_url p) pages"
  using locs_entries [OF assms, of "''</urlset>''"]
  by (simp add: sitemap_of_def foldl_append_concat sitemap_head_def nl_def)

lemma sitemap_roundtrip_witness:
  "sitemap_locs (sitemap_of ['''', ''about''] ''2025-01-01'') =
     [''https://excelacademy.edu/index.html'', ''https://excelacademy.edu/about.html'']"
  using sitemap_roundtrip [of "''2025-01-01''" "['''', ''about'']"] by (simp add: base_url_def page_url_def)

end
