(* ===== verification/BuildJs.thy ===== *)
theory BuildJs
  imports Build
begin

text \<open>
  \<open>src/build.js\<close>, the variant of the build that calls third-party minifiers, writes
  gzip and brotli sidecars and a service worker. The libraries (html-minifier-terser,
  clean-css, terser, imagemin, zlib, brotli) are parameters collected in a record: each
  is a function of the text it is given with the options of lines 17--33 fixed, and a
  minifier returns \<open>None\<close> where it throws. The walk, the exclusion test on the path
  string, the per-extension dispatch, the size threshold of the sidecars and the order
  of the build steps are modelled from the code. The recursion uses depth fuel as in
  \<open>Walker\<close>.
\<close>

record libs =
  html_minify :: "jsstr \<Rightarrow> jsstr option"
  css_minify :: "jsstr \<Rightarrow> jsstr option"
  js_minify :: "jsstr \<Rightarrow> jsstr option"
  gzip :: "jsstr \<Rightarrow> jsstr"
  brotli :: "jsstr \<Rightarrow> jsstr option"
  optimize_image :: "jsstr \<Rightarrow> jsstr"

subsection \<open>The path string and the exclusion test\<close>

text \<open>The string \<open>path.join\<close> builds from \<open>'.'\<close> and the names below it.\<close>

fun join_path :: "path \<Rightarrow> string" where
  "join_path [] = ''.''"
| "join_path [c] = c"
| "join_path (c # cs) = c @ ''/'' @ join_path cs"

fun contains :: "string \<Rightarrow> string \<Rightarrow> bool" where
  "contains pat [] = (pat = [])"
| "contains pat (c # s) = (starts_with pat (c # s) \<or> contains pat s)"

definition ends_with :: "string \<Rightarrow> string \<Rightarrow> bool" where
  "ends_with pat s = starts_with (rev pat) (rev s)"

text \<open>Lines 55--61, with JavaScript's precedence: \<open>&&\<close> binds tighter than \<open>||\<close>.\<close>

definition skip_js :: "path \<Rightarrow> bool" where
  "skip_js p =
     (let s = join_path p in
      contains ''node_modules'' s \<or> contains ''.git'' s \<or> contains ''.github'' s \<or>
      ends_with ''.md'' s \<or> (ends_with ''.json'' s \<and> \<not> ends_with ''manifest.json'' s))"

subsection \<open>Compression and the per-type processor\<close>

text \<open>\<open>`${target}.gz`\<close>: the name of a sidecar.\<close>

definition sidecar :: "path \<Rightarrow> string \<Rightarrow> path" where
  "sidecar t e = butlast t @ [last t @ e]"

text \<open>Lines 82--90 (and 100--108, 118--126): sidecars only above 1024 characters.\<close>

definition write_sidecars :: "libs \<Rightarrow> fs \<Rightarrow> path \<Rightarrow> jsstr \<Rightarrow> error + fs" where
  "write_sidecars L st t m =
     (if 1024 < length m then
        (case write_file st (sidecar t ''.gz'') (gzip L m) of
           Inl e \<Rightarrow> Inl e
         | Inr st1 \<Rightarrow>
             (case brotli L m of
                None \<Rightarrow> Inr st1
              | Some b \<Rightarrow> write_file st1 (sidecar t ''.br'') b))
      else Inr st)"

text \<open>
  Lines 76--90: read the source, minify, write the target, then the sidecars. A
  minifier that throws rejects the awaited promise: the error reaches \<open>build\<close>.
\<close>

definition minify_to :: "libs \<Rightarrow> (jsstr \<Rightarrow> jsstr option) \<Rightarrow> fs \<Rightarrow> path \<Rightarrow> path \<Rightarrow> error + fs" where
  "minify_to L f st src tgt =
     (case read_file st src of
        Inl e \<Rightarrow> Inl e
      | Inr content \<Rightarrow>
          (case f content of
             None \<Rightarrow> Inl (ELIB src)
           | Some m \<Rightarrow>
               (case write_file st tgt m of
                  Inl e \<Rightarrow> Inl e
                | Inr st1 \<Rightarrow> write_sidecars L st1 tgt m)))"

text \<open>
  The file branch, lines 53--147. \<open>imagemin\<close> writes the optimised image under the
  base name of the source into \<open>path.dirname(target)\<close>, which is the target itself.
\<close>

definition copy_one_js :: "libs \<Rightarrow> fs \<Rightarrow> path \<Rightarrow> path \<Rightarrow> error + fs" where
  "copy_one_js L st src tgt =
     (if skip_js src then Inr st
      else
        (case ensure_dir st (dirname tgt) of
           Inl e \<Rightarrow> Inl e
         | Inr st1 \<Rightarrow>
             (let ext = ext_of src in
              if ext = ''.html'' then minify_to L (html_minify L) st1 src tgt
              else if ext = ''.css'' then minify_to L (css_minify L) st1 src tgt
              else if ext = ''.js'' then minify_to L (js_minify L) st1 src tgt
              else if ext \<in> set [''.jpg'', ''.jpeg'', ''.png'', ''.svg'', ''.gif''] then
                (case read_file st1 src of
                   Inl e \<Rightarrow> Inl e
                 | Inr c \<Rightarrow> write_file st1 (dirname tgt @ [basename src]) (optimize_image L c))
              else copy_file st1 src tgt)))"

subsection \<open>copyFiles of build.js\<close>

text \<open>Lines 42--52: no directory is excluded.\<close>

fun copy_files_js :: "libs \<Rightarrow> nat \<Rightarrow> path \<Rightarrow> path \<Rightarrow> fs \<Rightarrow> (error + fs) option"
  and copy_items_js :: "libs \<Rightarrow> nat \<Rightarrow> path \<Rightarrow> path \<Rightarrow> string list \<Rightarrow> fs \<Rightarrow> (error + fs) option" where
  "copy_files_js L 0 src tgt st = None"
| "copy_files_js L (Suc n) src tgt st =
     (case is_directory st src of
        Inl e \<Rightarrow> Some (Inl e)
      | Inr True \<Rightarrow>
          (case ensure_dir st tgt of
             Inl e \<Rightarrow> Some (Inl e)
           | Inr st1 \<Rightarrow>
               (case readdir st1 src of
                  Inl e \<Rightarrow> Some (Inl e)
                | Inr files \<Rightarrow> copy_items_js L n src tgt files st1))
      | Inr False \<Rightarrow> Some (copy_one_js L st src tgt))"
| "copy_items_js L n src tgt [] st = Some (Inr st)"
| "copy_items_js L n src tgt (file # files) st =
     (case copy_files_js L n (src @ [file]) (tgt @ [file]) st of
        None \<Rightarrow> None
      | Some (Inl e) \<Rightarrow> Some (Inl e)
      | Some (Inr st') \<Rightarrow> copy_items_js L n src tgt files st')"

subsection \<open>Generators and the build\<close>

text \<open>Lines 151--181: the service worker, the template literal trimmed.\<close>

definition sw_text :: string where
  "sw_text = js_trim (nl @
     ''    const CACHE_NAME = 'excel-academy-v1';'' @ nl @
     ''    const urlsToCache = ['' @ nl @
     ''      '/','' @ nl @
     ''      '/index.html','' @ nl @
     ''      '/assets/css/styles.css','' @ nl @
     ''      '/assets/js/main.js','' @ nl @
     ''      '/assets/images/logo.png','' @ nl @
     ''      // Add other important assets to cache'' @ nl @
     ''    ];'' @ nl @
     '''' @ nl @
     ''    self.addEventListener('install', event => {'' @ nl @
     ''      event.waitUntil('' @ nl @
     ''        caches.open(CACHE_NAME)'' @ nl @
     ''          .then(cache => cache.addAll(urlsToCache))'' @ nl @
     ''      );'' @ nl @
     ''    });'' @ nl @
     '''' @ nl @
     ''    self.addEventListener('fetch', event => {'' @ nl @
     ''      event.respondWith('' @ nl @
     ''        caches.match(event.request)'' @ nl @
     ''          .then(response => response || fetch(event.request))'' @ nl @
     ''      );'' @ nl @
     ''    });'' @ nl @ ''  '')"

definition generate_service_worker :: "fs \<Rightarrow> error + fs" where
  "generate_service_worker st = write_file st (build_dir cfg @ [''sw.js'']) sw_text"

text \<open>Lines 184--216 and 219--230 are the generators of \<open>build-simple.js\<close> verbatim.\<close>

definition generate_sitemap_js :: "string \<Rightarrow> fs \<Rightarrow> error + fs" where
  "generate_sitemap_js date st = write_file st (build_dir cfg @ [''sitemap.xml'']) (sitemap_text date)"

definition generate_robots_txt_js :: "fs \<Rightarrow> error + fs" where
  "generate_robots_txt_js st = write_file st (build_dir cfg @ [''robots.txt'']) robots_text"

text \<open>Lines 36--39, run when the module is loaded, and \<open>build\<close>, lines 233--251: no clean step.\<close>

definition build_js :: "libs \<Rightarrow> nat \<Rightarrow> string \<Rightarrow> fs \<Rightarrow> (error + fs) option" where
  "build_js L n date st =
     (case ensure_dir st (build_dir cfg) of
        Inl e \<Rightarrow> Some (Inl e)
      | Inr st0 \<Rightarrow>
     (case copy_files_js L n (source_dir cfg) (build_dir cfg) st0 of
        None \<Rightarrow> None
      | Some (Inl e) \<Rightarrow> Some (Inl e)
      | Some (Inr st1) \<Rightarrow>
     (case generate_service_worker st1 of
        Inl e \<Rightarrow> Some (Inl e)
      | Inr st2 \<Rightarrow>
     (case generate_sitemap_js date st2 of
        Inl e \<Rightarrow> Some (Inl e)
      | Inr st3 \<Rightarrow>
     (case generate_robots_txt_js st3 of
        Inl e \<Rightarrow> Some (Inl e)
      | Inr st4 \<Rightarrow> Some (Inr st4))))))"

text \<open>Libraries for evaluation: minifiers that keep the text, compressors that tag it.\<close>

definition id_libs :: libs where
  "id_libs = \<lparr>html_minify = Some, css_minify = Some, js_minify = Some,
     gzip = (\<lambda>s. ''gz:'' @ s), brotli = (\<lambda>s. Some (''br:'' @ s)), optimize_image = id\<rparr>"

text \<open>
  The paths a step may change when it writes to target \<open>t\<close>: the target and everything
  below it, its two sidecars, and directories on the way to it.
\<close>

definition within :: "path \<Rightarrow> fs \<Rightarrow> fs \<Rightarrow> bool" where
  "within t st st' \<longleftrightarrow> (\<forall>q. lookup st' q \<noteq> lookup st q \<longrightarrow>
     prefix t q \<or> q = sidecar t ''.gz'' \<or> q = sidecar t ''.br'' \<or> (prefix q t \<and> lookup st' q = Some Dir))"

text \<open>Trees for the sidecar threshold: one page of \<open>k\<close> characters.\<close>

definition demo_page :: "nat \<Rightarrow> fs" where
  "demo_page k = [([''dist''], Dir), ([''a.html''], File (replicate k CHR ''x''))]"

subsection \<open>Lemmas: what a step of the walk changes\<close>

lemma within_refl: "within t st st"
  by (simp add: within_def)

lemma within_trans: "within t st st1 \<Longrightarrow> within t st1 st2 \<Longrightarrow> within t st st2"
  unfolding within_def by (metis (no_types, lifting))

lemma within_write: "write_file st p c = Inr st' \<Longrightarrow> p \<in> {t, sidecar t ''.gz'', sidecar t ''.br''} \<Longrightarrow> within t st st'"
  using write_file_frame unfolding within_def by blast

lemma within_ensure: "ensure_dir st p = Inr st' \<Longrightarrow> prefix p t \<Longrightarrow> within t st st'"
  using ensure_dir_frame unfolding within_def by (meson prefix_order.trans)

lemma within_child: "within (t @ [i]) st st' \<Longrightarrow> within t st st'"
  unfolding within_def sidecar_def
  by (auto simp: prefix_def butlast_append) (metis prefix_def prefix_snoc)+

lemma within_sidecars: "write_sidecars L st t m = Inr st' \<Longrightarrow> within t st st'"
  unfolding write_sidecars_def
  by (auto split: if_splits sum.splits option.splits intro: within_refl within_trans within_write)

lemma within_minify_to: "minify_to L f st s t = Inr st' \<Longrightarrow> within t st st'"
  unfolding minify_to_def
  by (auto split: sum.splits option.splits intro: within_trans within_write within_sidecars)

lemma within_copy_one:
  assumes "copy_one_js L st s t = Inr st'" "s \<noteq> []" "t \<noteq> []" "last t = last s"
  shows "within t st st'"
proof -
  have img: "dirname t @ [basename s] = t"
    using assms(2-4) by (simp add: dirname_def basename_def) (metis append_butlast_last_id)
  have pre: "prefix (dirname t) t" by (simp add: dirname_def prefix_butlast_self)
  show ?thesis
  proof (cases "skip_js s")
    case True
    with assms(1) show ?thesis by (simp add: copy_one_js_def within_refl)
  next
    case False
    with assms(1) obtain st1 where e: "ensure_dir st (dirname t) = Inr st1"
      and r: "(let ext = ext_of s in
              if ext = ''.html'' then minify_to L (html_minify L) st1 s t
              else if ext = ''.css'' then minify_to L (css_minify L) st1 s t
              else if ext = ''.js'' then minify_to L (js_minify L) st1 s t
              else if ext \<in> set [''.jpg'', ''.jpeg'', ''.png'', ''.svg'', ''.gif''] then
                (case read_file st1 s of
                   Inl e \<Rightarrow> Inl e
                 | Inr c \<Rightarrow> write_file st1 (dirname t @ [basename s]) (optimize_image L c))
              else copy_file st1 s t) = Inr st'"
      by (auto simp: copy_one_js_def split: sum.splits)
    have "within t st1 st'"
      using r unfolding img Let_def copy_file_def
      by (auto split: if_splits sum.splits intro: within_minify_to within_write)
    with within_ensure [OF e pre] show ?thesis by (rule within_trans)
  qed
qed

lemma within_walk:
  "copy_files_js L n s t st = Some (Inr st') \<Longrightarrow> s = [] \<or> (t \<noteq> [] \<and> last t = last s) \<Longrightarrow> within t st st'"
  "copy_items_js L n s t items st = Some (Inr st') \<Longrightarrow> within t st st'"
proof (induction L n s t st and L n s t items st arbitrary: st' and st' rule: copy_files_js_copy_items_js.induct)
  case (2 L n src tgt st)
  show ?case
  proof (cases "is_directory st src")
    case (Inr isdir)
    show ?thesis
    proof (cases isdir)
      case True
      with "2.prems"(1) Inr obtain st1 files where e: "ensure_dir st tgt = Inr st1"
        and rd: "readdir st1 src = Inr files" and it: "copy_items_js L n src tgt files st1 = Some (Inr st')"
        by (auto split: sum.splits)
      from True have "isdir = True" by simp
      from within_ensure [OF e prefix_order.refl] "2.IH" [OF Inr this e rd it]
      show ?thesis by (rule within_trans)
    next
      case False
      with "2.prems" Inr have c: "copy_one_js L st src tgt = Inr st'" by simp
      have "src \<noteq> []" using Inr False by (auto simp: is_directory_def)
      with "2.prems"(2) c show ?thesis using within_copy_one by blast
    qed
  qed (use "2.prems" in simp)
next
  case (4 L n src tgt f fs st)
  from "4.prems" obtain st1 where hd: "copy_files_js L n (src @ [f]) (tgt @ [f]) st = Some (Inr st1)"
    and r: "copy_items_js L n src tgt fs st1 = Some (Inr st')"
    by (auto split: option.splits sum.splits)
  have "within (tgt @ [f]) st st1" by (rule "4.IH"(1) [OF hd]) simp
  from within_trans [OF within_child [OF this] "4.IH"(2) [OF hd refl r]] show ?case .
qed (auto simp: within_refl)

subsection \<open>Lemmas: the walk descends into its own output\<close>

lemma sidecar_not_dist: "xs @ ''.gz'' \<noteq> ''dist''" "xs @ ''.br'' \<noteq> ''dist''"
proof
  assume "xs @ ''.gz'' = ''dist''"
  then have "last (xs @ ''.gz'') = last ''dist''" by simp
  then show False by simp
next
  show "xs @ ''.br'' \<noteq> ''dist''"
  proof
    assume "xs @ ''.br'' = ''dist''"
    then have "last (xs @ ''.br'') = last ''dist''" by simp
    then show False by simp
  qed
qed

lemma within_keeps_dist:
  assumes w: "within (src @ [''dist'', i]) st st1" and i: "i \<noteq> ''dist''"
    and q: "lookup st (src @ [''dist'']) = Some Dir \<and> (\<forall>k. \<not> is_file (lookup st (src @ [''dist''] @ replicate (Suc k) ''dist'')))"
  shows "lookup st1 (src @ [''dist'']) = Some Dir \<and> (\<forall>k. \<not> is_file (lookup st1 (src @ [''dist''] @ replicate (Suc k) ''dist'')))"
proof -
  have "lookup st1 (src @ [''dist'']) = Some Dir"
  proof (cases "lookup st1 (src @ [''dist'']) = lookup st (src @ [''dist''])")
    case True
    with q show ?thesis by simp
  next
    case False
    have "\<not> prefix (src @ [''dist'', i]) (src @ [''dist''])" by (auto dest: prefix_length_le)
    moreover have "src @ [''dist''] \<noteq> sidecar (src @ [''dist'', i]) e" for e
      by (simp add: sidecar_def butlast_append)
    moreover have "prefix (src @ [''dist'']) (src @ [''dist'', i])" by simp
    ultimately show ?thesis using w False unfolding within_def by blast
  qed
  moreover have "\<not> is_file (lookup st1 (src @ [''dist''] @ replicate (Suc k) ''dist''))" for k
  proof (cases "lookup st1 (src @ [''dist''] @ replicate (Suc k) ''dist'') = lookup st (src @ [''dist''] @ replicate (Suc k) ''dist'')")
    case True
    with q show ?thesis by simp
  next
    case False
    have np: "\<not> prefix (src @ [''dist'', i]) (src @ [''dist''] @ replicate (Suc k) ''dist'')"
      using i by (simp add: prefix_def)
    have ns: "src @ [''dist''] @ replicate (Suc k) ''dist'' \<noteq> sidecar (src @ [''dist'', i]) e"
      if "e \<in> {''.gz'', ''.br''}" for e
      using that sidecar_not_dist [of i]
      by (cases k) (auto simp: sidecar_def butlast_append dest: arg_cong [where f = length])
    from w False np ns [of "''.gz''"] ns [of "''.br''"] have "lookup st1 (src @ [''dist''] @ replicate (Suc k) ''dist'') = Some Dir"
      unfolding within_def by blast
    then show ?thesis by simp
  qed
  ultimately show ?thesis by blast
qed

lemma items_js_diverge:
  assumes ih: "\<And>st st'. lookup st (src @ [''dist'']) = Some Dir \<Longrightarrow>
        (\<forall>k. \<not> is_file (lookup st (src @ [''dist''] @ replicate (Suc k) ''dist''))) \<Longrightarrow>
        copy_files_js L n (src @ [''dist'']) (src @ [''dist''] @ [''dist'']) st \<noteq> Some (Inr st')"
  shows "lookup st (src @ [''dist'']) = Some Dir \<Longrightarrow>
    (\<forall>k. \<not> is_file (lookup st (src @ [''dist''] @ replicate (Suc k) ''dist''))) \<Longrightarrow>
    ''dist'' \<in> set items \<Longrightarrow> copy_items_js L n src (src @ [''dist'']) items st \<noteq> Some (Inr st')"
proof (induction items arbitrary: st)
  case (Cons i items)
  show ?case
  proof (cases "i = ''dist''")
    case True
    with ih [OF Cons.prems(1,2)] show ?thesis by (auto split: option.splits sum.splits)
  next
    case False
    show ?thesis
    proof
      assume "copy_items_js L n src (src @ [''dist'']) (i # items) st = Some (Inr st')"
      then obtain st1 where hd: "copy_files_js L n (src @ [i]) (src @ [''dist''] @ [i]) st = Some (Inr st1)"
        and r: "copy_items_js L n src (src @ [''dist'']) items st1 = Some (Inr st')"
        by (auto split: option.splits sum.splits)
      have "within (src @ [''dist'', i]) st st1" using within_walk(1) [OF hd] by simp
      from within_keeps_dist [OF this False] Cons.prems(1,2)
      have "lookup st1 (src @ [''dist'']) = Some Dir"
        "\<forall>k. \<not> is_file (lookup st1 (src @ [''dist''] @ replicate (Suc k) ''dist''))" by auto
      with Cons.IH Cons.prems(3) False r show False by auto
    qed
  qed
qed simp

lemma walk_js_diverges:
  "lookup st src = Some Dir \<Longrightarrow> (\<forall>k. \<not> is_file (lookup st (src @ replicate (Suc k) ''dist''))) \<Longrightarrow>
   copy_files_js L n src (src @ [''dist'']) st \<noteq> Some (Inr st')"
proof (induction n arbitrary: src st st')
  case (Suc n)
  show ?case
  proof
    assume run: "copy_files_js L (Suc n) src (src @ [''dist'']) st = Some (Inr st')"
    from Suc.prems(1) have isd: "is_directory st src = Inr True" by (simp add: is_directory_def)
    with run obtain st1 where e: "ensure_dir st (src @ [''dist'']) = Inr st1"
      and r: "(case readdir st1 src of Inl e \<Rightarrow> Some (Inl e)
              | Inr files \<Rightarrow> copy_items_js L n src (src @ [''dist'']) files st1) = Some (Inr st')"
      by (auto split: sum.splits)
    have d1: "lookup st1 (src @ [''dist'']) = Some Dir"
      using ensure_dir_target [OF e] Suc.prems(2) [rule_format, of 0] by simp
    have s1: "lookup st1 src = Some Dir"
      using ensure_dir_frame [OF e, where q = src] Suc.prems(1) by auto
    have k1: "\<not> is_file (lookup st1 (src @ [''dist''] @ replicate (Suc k) ''dist''))" for k
      using ensure_dir_frame [OF e, where q = "src @ [''dist''] @ replicate (Suc k) ''dist''"]
        Suc.prems(2) [rule_format, of "Suc k"] by (cases "lookup st1 (src @ [''dist''] @ replicate (Suc k) ''dist'') =
          lookup st (src @ [''dist''] @ replicate (Suc k) ''dist'')") auto
    have "''dist'' \<in> set (children st1 src)" using d1 by (simp add: children_iff)
    moreover have "copy_items_js L n src (src @ [''dist'']) (children st1 src) st1 \<noteq> Some (Inr st')"
      if "''dist'' \<in> set (children st1 src)"
    proof (rule items_js_diverge [OF _ d1 _ that])
      fix st st'
      assume "lookup st (src @ [''dist'']) = Some Dir"
        "\<forall>k. \<not> is_file (lookup st (src @ [''dist''] @ replicate (Suc k) ''dist''))"
      with Suc.IH [where src = "src @ [''dist'']" and st = st and st' = st'] show
        "copy_files_js L n (src @ [''dist'']) (src @ [''dist''] @ [''dist'']) st \<noteq> Some (Inr st')"
        by simp
    qed (use k1 in auto)
    ultimately show False using r s1 by (simp add: readdir_def)
  qed
qed simp

subsection \<open>Lemmas: sidecar names\<close>

lemma last_sidecar: "last (sidecar t e) = last t @ e"
  by (simp add: sidecar_def)

lemma sidecar_inj: "sidecar t e1 = sidecar t e2 \<Longrightarrow> e1 = e2"
proof -
  assume "sidecar t e1 = sidecar t e2"
  then have "last (sidecar t e1) = last (sidecar t e2)" by simp
  then show "e1 = e2" by (simp add: last_sidecar)
qed

lemma sidecar_ne_self: "e \<noteq> [] \<Longrightarrow> sidecar t e \<noteq> t"
proof
  assume "e \<noteq> []" "sidecar t e = t"
  then have "last (sidecar t e) = last t" by simp
  then have "last t @ e = last t" by (simp only: last_sidecar)
  with \<open>e \<noteq> []\<close> show False by simp
qed

lemma sidecar_ne:
  "sidecar t ''.gz'' \<noteq> t" "sidecar t ''.br'' \<noteq> t" "sidecar t ''.gz'' \<noteq> sidecar t ''.br''"
proof -
  show "sidecar t ''.gz'' \<noteq> t" "sidecar t ''.br'' \<noteq> t" by (simp_all add: sidecar_ne_self)
  show "sidecar t ''.gz'' \<noteq> sidecar t ''.br''"
  proof
    assume "sidecar t ''.gz'' = sidecar t ''.br''"
    then have "''.gz'' = ''.br''" by (rule sidecar_inj)
    then show False by simp
  qed
qed

subsection \<open>Lemmas: directories are never removed\<close>

lemma dirs_kept_ensure: "ensure_dir st p = Inr st' \<Longrightarrow> dirs_kept st st'"
  unfolding dirs_kept_def using ensure_dir_frame by metis

lemma dirs_kept_sidecars: "write_sidecars L st t m = Inr st' \<Longrightarrow> dirs_kept st st'"
  unfolding write_sidecars_def
  by (auto split: if_splits sum.splits option.splits intro: dirs_kept_trans dirs_kept_write)

lemma dirs_kept_minify_to: "minify_to L f st s t = Inr st' \<Longrightarrow> dirs_kept st st'"
  unfolding minify_to_def
  by (auto split: sum.splits option.splits intro: dirs_kept_trans dirs_kept_write dirs_kept_sidecars)

lemma dirs_kept_copy_one: "copy_one_js L st s t = Inr st' \<Longrightarrow> dirs_kept st st'"
  unfolding copy_one_js_def Let_def copy_file_def
  by (auto split: if_splits sum.splits
      intro: dirs_kept_trans [OF dirs_kept_ensure] dirs_kept_minify_to dirs_kept_write)

lemma dirs_kept_walk:
  "copy_files_js L n s t st = Some (Inr st') \<Longrightarrow> dirs_kept st st'"
  "copy_items_js L n s t items st = Some (Inr st') \<Longrightarrow> dirs_kept st st'"
proof (induction L n s t st and L n s t items st arbitrary: st' and st' rule: copy_files_js_copy_items_js.induct)
  case (2 L n src tgt st)
  then show ?case
    by (auto split: sum.splits bool.splits intro: dirs_kept_trans [OF dirs_kept_ensure] dirs_kept_copy_one)
next
  case (4 L n src tgt f fs st)
  then show ?case by (auto split: option.splits sum.splits intro: dirs_kept_trans)
qed auto

lemma walk_js_node_modules_runs:
  "(case copy_files_js id_libs 3 [''node_modules''] [''dist'', ''node_modules''] demo_fs of Some (Inr st') \<Rightarrow> True | _ \<Rightarrow> False)"
  by code_simp

subsection \<open>Properties of build.js\<close>

text \<open>
  C8. \<open>build.js\<close> never finishes a build: \<open>copyFiles('.', 'dist')\<close> excludes no
  directory, so it reaches \<open>dist\<close>, creates \<open>dist/dist\<close> while copying it, lists it, and
  descends again. Whatever the fuel, the run ends without result (fuel exhausted) or with
  an exception (in Node: a path too long), never with a completed build. The only
  assumption is that no file sits where one of the directories \<open>dist/dist/...\<close> goes.
\<close>

theorem build_js_never_finishes:
  assumes "\<forall>k. \<not> is_file (lookup st (replicate (Suc k) ''dist''))"
  shows "build_js L n date st \<noteq> Some (Inr st')"
proof (cases "ensure_dir st D")
  case (Inr st0)
  have "\<not> is_file (lookup st0 ([] @ replicate (Suc k) ''dist''))" for k
    using ensure_dir_frame [OF Inr, where q = "replicate (Suc k) ''dist''"] assms
    by (cases "lookup st0 (replicate (Suc k) ''dist'') = lookup st (replicate (Suc k) ''dist'')") auto
  then have "copy_files_js L n [] ([] @ [''dist'']) st0 \<noteq> Some (Inr x)" for x
    by (intro walk_js_diverges) auto
  with Inr show ?thesis
    by (auto simp: build_js_def cfg_def split: option.splits sum.splits)
qed (simp add: build_js_def)

lemma build_js_never_finishes_witness: "\<forall>st'. build_js id_libs 6 ''2025-01-01'' demo_fs \<noteq> Some (Inr st')"
proof -
  have "\<not> is_file (lookup demo_fs (replicate (Suc k) ''dist''))" for k
    by (cases k) (simp_all add: demo_fs_def lookup_def)
  then show ?thesis using build_js_never_finishes by blast
qed

text \<open>
  C10. Sidecar threshold (lines 76--90): after a text file is minified to \<open>m\<close> and
  written, \<open>.gz\<close> and \<open>.br\<close> sidecars are written exactly when \<open>m\<close> has more
  than 1024 characters; the \<open>.br\<close> one only when brotli returns a buffer, and
  when it returns \<open>null\<close> the \<open>.br\<close> path is left as it was. At 1024 both
  sidecar paths are left as they were.
\<close>

theorem sidecar_threshold:
  assumes run: "minify_to L f st s t = Inr st'" and rd: "read_file st s = Inr c" and m: "f c = Some m"
    and t: "t \<noteq> []"
  shows "lookup st' t = Some (File m) \<and>
    (length m \<le> 1024 \<longrightarrow> lookup st' (sidecar t ''.gz'') = lookup st (sidecar t ''.gz'') \<and>
                          lookup st' (sidecar t ''.br'') = lookup st (sidecar t ''.br'')) \<and>
    (1024 < length m \<longrightarrow> lookup st' (sidecar t ''.gz'') = Some (File (gzip L m)) \<and>
       lookup st' (sidecar t ''.br'') =
         (case brotli L m of None \<Rightarrow> lookup st (sidecar t ''.br'') | Some b \<Rightarrow> Some (File b)))"
proof -
  from run rd m obtain st1 where w: "write_file st t m = Inr st1" and sc: "write_sidecars L st1 t m = Inr st'"
    by (auto simp: minify_to_def split: sum.splits)
  have st1: "st1 = put st t (File m)" using write_file_Inr [OF w] by simp
  note ne = sidecar_ne [of t]
  have sc_ne: "sidecar t e \<noteq> []" for e by (simp add: sidecar_def)
  show ?thesis
  proof (cases "1024 < length m")
    case False
    with sc have "st' = st1" by (simp add: write_sidecars_def)
    with st1 t ne False show ?thesis by (simp add: lookup_put)
  next
    case True
    with sc obtain st2 where g: "write_file st1 (sidecar t ''.gz'') (gzip L m) = Inr st2"
      and rest: "(case brotli L m of None \<Rightarrow> Inr st2 | Some b \<Rightarrow> write_file st2 (sidecar t ''.br'') b) = Inr st'"
      by (auto simp: write_sidecars_def split: sum.splits)
    have st2: "st2 = put st1 (sidecar t ''.gz'') (File (gzip L m))" using write_file_Inr [OF g] by simp
    show ?thesis
    proof (cases "brotli L m")
      case None
      with rest have "st' = st2" by simp
      with st2 st1 True t ne sc_ne None show ?thesis by (simp add: lookup_put)
    next
      case (Some b)
      with rest have "write_file st2 (sidecar t ''.br'') b = Inr st'" by simp
      then have "st' = put st2 (sidecar t ''.br'') (File b)" using write_file_Inr by blast
      with Some st2 st1 True t ne sc_ne show ?thesis by (simp add: lookup_put)
    qed
  qed
qed

lemma sidecar_threshold_witness:
  "(\<exists>st'. minify_to id_libs (html_minify id_libs) (demo_page 1025) [''a.html''] [''dist'', ''a.html''] = Inr st' \<and>
      lookup st' [''dist'', ''a.html.gz''] = Some (File (''gz:'' @ replicate 1025 CHR ''x'')) \<and>
      lookup st' [''dist'', ''a.html.br''] = Some (File (''br:'' @ replicate 1025 CHR ''x''))) \<and>
   (\<exists>st'. minify_to id_libs (html_minify id_libs) (demo_page 1024) [''a.html''] [''dist'', ''a.html''] = Inr st' \<and>
      lookup st' [''dist'', ''a.html.gz''] = None \<and> lookup st' [''dist'', ''a.html.br''] = None)"
proof -
  have rd: "read_file (demo_page k) [''a.html''] = Inr (replicate k CHR ''x'')" for k
    by (simp add: demo_page_def read_file_def lookup_def)
  have hm: "html_minify id_libs (replicate k CHR ''x'') = Some (replicate k CHR ''x'')" for k
    by (simp add: id_libs_def)
  have ld: "lookup (demo_page k) [''dist''] = Some Dir" "lookup (demo_page k) [''dist'', x] = None" for k x
    by (simp_all add: demo_page_def lookup_def)
  have ex: "\<exists>st'. minify_to id_libs (html_minify id_libs) (demo_page k) [''a.html''] [''dist'', ''a.html''] = Inr st'" for k
    by (simp add: minify_to_def rd hm write_file_def ld lookup_put write_sidecars_def sidecar_def
        split: option.splits)
  have sc: "sidecar [''dist'', ''a.html''] e = [''dist'', ''a.html'' @ e]" for e
    by (simp add: sidecar_def)
  obtain st1 where r1: "minify_to id_libs (html_minify id_libs) (demo_page 1025) [''a.html''] [''dist'', ''a.html''] = Inr st1"
    using ex by blast
  obtain st2 where r2: "minify_to id_libs (html_minify id_libs) (demo_page 1024) [''a.html''] [''dist'', ''a.html''] = Inr st2"
    using ex by blast
  have "lookup (demo_page 1024) [''dist'', ''a.html.gz''] = None" "lookup (demo_page 1024) [''dist'', ''a.html.br''] = None"
    by (simp_all add: demo_page_def lookup_def)
  with sidecar_threshold [OF r1 rd hm] sidecar_threshold [OF r2 rd hm] r1 r2 sc show ?thesis
    by (auto simp: id_libs_def)
qed

text \<open>
  C11. Error path: in \<open>build.js\<close> a minifier that throws on one file ends the walk with
  that exception; no \<open>try\<close> around the per-file processing catches it.
\<close>

theorem walk_js_library_error:
  assumes "lookup st src = Some (File c)" "\<not> skip_js src" "ext_of src = ''.js''" "js_minify L c = None"
    and "lookup st (dirname tgt) = Some Dir"
  shows "copy_files_js L (Suc n) src tgt st = Some (Inl (ELIB src))"
  using assms
  by (simp add: is_directory_def copy_one_js_def ensure_dir_exists minify_to_def read_file_def)

lemma walk_js_library_error_witness:
  "copy_files_js (id_libs\<lparr>js_minify := (\<lambda>s. None)\<rparr>) 1 [''app.js''] [''dist'', ''app.js'']
     [([''dist''], Dir), ([''app.js''], File ''x'')] = Some (Inl (ELIB [''app.js'']))"
proof -
  have "lookup [([''dist''], Dir), ([''app.js''], File ''x'')] [''app.js''] = Some (File ''x'')"
    "\<not> skip_js [''app.js'']" "ext_of [''app.js''] = ''.js''"
    "js_minify (id_libs\<lparr>js_minify := (\<lambda>s. None)\<rparr>) ''x'' = None"
    "lookup [([''dist''], Dir), ([''app.js''], File ''x'')] (dirname [''dist'', ''app.js'']) = Some Dir"
    by (simp_all add: lookup_def skip_js_def ends_with_def ext_of_def extname_def last_dot_def basename_def
        js_lower_def dirname_def)
  from walk_js_library_error [OF this] show ?thesis by simp
qed

text \<open>
  C12. \<open>build.js\<close> excludes no directory (lines 42--52): whenever its walk of a
  source directory returns, the target directory exists, whatever the directory's name
  and whether or not any file below it is copied. A \<open>node_modules\<close> or \<open>.git\<close>
  directory, whose files are all skipped by the test of lines 55--61, is still recreated
  (empty) in \<open>dist\<close>.
\<close>

theorem walk_js_creates_every_dir:
  assumes run: "copy_files_js L n src tgt st = Some (Inr st')"
    and src: "lookup st src = Some Dir" and tgt: "\<not> is_file (lookup st tgt)"
  shows "lookup st' tgt = Some Dir"
proof (cases n)
  case (Suc m)
  from run src Suc obtain st1 files where e: "ensure_dir st tgt = Inr st1"
    and it: "copy_items_js L m src tgt files st1 = Some (Inr st')"
    by (auto simp: is_directory_def split: sum.splits)
  have "lookup st1 tgt = Some Dir"
  proof (cases "tgt = []")
    case False
    with ensure_dir_target [OF e _ tgt] show ?thesis by simp
  qed simp
  with dirs_kept_walk(2) [OF it] show ?thesis by (simp add: dirs_kept_def)
qed (use run in simp)

lemma walk_js_creates_every_dir_witness:
  "\<exists>st'. copy_files_js id_libs 3 [''node_modules''] [''dist'', ''node_modules''] demo_fs = Some (Inr st') \<and>
     lookup st' [''dist'', ''node_modules''] = Some Dir"
proof -
  obtain st' where r: "copy_files_js id_libs 3 [''node_modules''] [''dist'', ''node_modules''] demo_fs = Some (Inr st')"
    using walk_js_node_modules_runs by (auto split: option.splits sum.splits)
  have "lookup demo_fs [''node_modules''] = Some Dir" "\<not> is_file (lookup demo_fs [''dist'', ''node_modules''])"
    by (simp_all add: demo_fs_def lookup_def)
  with walk_js_creates_every_dir [OF r] r show ?thesis by blast
qed

end
