(* ===== verification/MainJs.thy ===== *)
theory MainJs
  imports Prelude
begin

text \<open>
  The browser script \<open>src/assets/js/main.js\<close> as a state machine over the parts of the
  page it reads and writes. The state holds, for each widget the page has, the classes
  and attributes the handlers change; each event listener is a function on that state,
  and \<open>step\<close> dispatches an event to the listener the script registered for it (lines
  6--62 and 67--82 register a listener only when its element exists). Attributes that
  may be missing are options (\<open>getAttribute\<close> returns \<open>null\<close>).
\<close>

subsection \<open>Mobile menu and anchors (lines 8--43)\<close>

record menu =
  menu_hidden :: bool
  aria_expanded :: "string option"

text \<open>Lines 12--18: \<open>setAttribute\<close> stores the boolean as the string \<open>'true'\<close> or \<open>'false'\<close>.\<close>

definition js_bool :: "bool \<Rightarrow> string" where
  "js_bool b = (if b then ''true'' else ''false'')"

definition menu_click :: "menu \<Rightarrow> menu" where
  "menu_click m =
     (let m1 = m\<lparr>menu_hidden := \<not> menu_hidden m\<rparr>;
          is_expanded = (aria_expanded m = Some ''true'')
      in m1\<lparr>aria_expanded := Some (js_bool (\<not> is_expanded))\<rparr>)"

text \<open>
  Lines 23--42: a click on an anchor \<open>href\<close> whose target has offset \<open>target\<close> (when
  there is one) scrolls 80 pixels above it and closes an open menu.
\<close>

definition anchor_click :: "string \<Rightarrow> int option \<Rightarrow> menu option \<Rightarrow> int \<Rightarrow> menu option \<times> int" where
  "anchor_click href target mm y =
     (if href = ''#'' then (mm, y)
      else case target of
        None \<Rightarrow> (mm, y)
      | Some off \<Rightarrow>
          (case mm of
             Some m \<Rightarrow>
               (if \<not> menu_hidden m
                then (Some (m\<lparr>menu_hidden := True, aria_expanded := Some ''false''\<rparr>), off - 80)
                else (Some m, off - 80))
           | None \<Rightarrow> (None, off - 80)))"

subsection \<open>Navigation highlight (lines 46--58)\<close>

text \<open>\<open>String.prototype.split('/')\<close>.\<close>

fun split_slash :: "string \<Rightarrow> string list" where
  "split_slash [] = [[]]"
| "split_slash (c # s) =
     (let r = split_slash s in if c = CHR ''/'' then [] # r else (c # hd r) # tl r)"

text \<open>Line 46: the last segment of the path, or \<open>'index.html'\<close> when it is empty.\<close>

definition current_page :: "string \<Rightarrow> string" where
  "current_page pathname = (let p = last (split_slash pathname) in if p = [] then ''index.html'' else p)"

text \<open>Lines 49--51: whether a link gets \<open>aria-current="page"\<close> and the active classes.\<close>

definition link_active :: "string \<Rightarrow> string option \<Rightarrow> bool" where
  "link_active cur href =
     (case href of
        None \<Rightarrow> False
      | Some h \<Rightarrow> h \<noteq> [] \<and> (h = cur \<or> (cur = [] \<and> h = ''index.html'') \<or> (cur = ''index.html'' \<and> h = ''./'')))"

definition nav_update :: "string \<Rightarrow> string option list \<Rightarrow> bool list" where
  "nav_update pathname links = map (link_active (current_page pathname)) links"

subsection \<open>Gallery (lines 87--138)\<close>

record gallery =
  filters :: "(string option \<times> bool) list"
  items :: "(string option \<times> bool) list"
  current_items :: nat
  load_more :: "bool option"

text \<open>
  Lines 93--113: the clicked button becomes the only active one, and an item is shown
  when the filter is \<open>'all'\<close> or equals its category (two missing attributes compare
  equal, as \<open>null === null\<close> does).
\<close>

definition filter_click :: "nat \<Rightarrow> gallery \<Rightarrow> gallery" where
  "filter_click k g =
     (let f = fst (filters g ! k) in
      g\<lparr>filters := map (\<lambda>(j, (df, a)). (df, j = k)) (enumerate 0 (filters g)),
        items := map (\<lambda>(cat, shown). (cat, f = Some ''all'' \<or> cat = f)) (items g)\<rparr>)"

text \<open>Lines 121--136: four more items from \<open>currentItems\<close> on, whatever the filter.\<close>

definition load_more_click :: "gallery \<Rightarrow> gallery" where
  "load_more_click g =
     (let cur = current_items g;
          its = map (\<lambda>(i, (cat, shown)). (cat, shown \<or> (cur \<le> i \<and> i < cur + 4))) (enumerate 0 (items g));
          cur' = cur + 4
      in g\<lparr>items := its, current_items := cur',
           load_more := (if length its \<le> cur' then Some False else load_more g)\<rparr>)"

subsection \<open>FAQ accordion (lines 170--193)\<close>

record faq =
  faq_hidden :: bool
  icon_transform :: bool
  icon_rotate :: bool

definition faq_click :: "nat \<Rightarrow> faq list \<Rightarrow> faq list" where
  "faq_click k fs =
     map (\<lambda>(j, q).
        if j = k then q\<lparr>faq_hidden := \<not> faq_hidden q, icon_transform := \<not> icon_transform q,
                        icon_rotate := \<not> icon_rotate q\<rparr>
        else q\<lparr>faq_hidden := True, icon_rotate := False\<rparr>)
      (enumerate 0 fs)"

subsection \<open>Contact form (lines 143--165)\<close>

record form =
  form_fields :: "(string \<times> string) list"
  form_defaults :: "(string \<times> string) list"
  submitted :: "(string \<rightharpoonup> string) list"
  alerts :: "string list"

text \<open>Lines 151--155: a later entry with the same name overwrites an earlier one.\<close>

definition form_object :: "(string \<times> string) list \<Rightarrow> string \<rightharpoonup> string" where
  "form_object entries = foldl (\<lambda>obj (k, v). obj(k \<mapsto> v)) Map.empty entries"

definition form_submit :: "form \<Rightarrow> form" where
  "form_submit fm =
     fm\<lparr>submitted := submitted fm @ [form_object (form_fields fm)],
        alerts := alerts fm @ [''Thank you for your message! We will get back to you soon.''],
        form_fields := form_defaults fm\<rparr>"

subsection \<open>The page and its events\<close>

record page =
  menu :: "menu option"
  scroll_y :: int
  gallery :: "gallery option"
  faqs :: "faq list"
  form :: "form option"

datatype event =
    MenuClick
  | AnchorClick string "int option"
  | FilterClick nat
  | LoadMoreClick
  | FaqClick nat
  | SubmitForm

text \<open>
  The listener each event reaches; an event on an element the page does not have, or on
  the hidden load-more button, changes nothing.
\<close>

fun step :: "page \<Rightarrow> event \<Rightarrow> page" where
  "step p MenuClick = p\<lparr>menu := map_option menu_click (menu p)\<rparr>"
| "step p (AnchorClick href target) =
     (let (m, y) = anchor_click href target (menu p) (scroll_y p) in p\<lparr>menu := m, scroll_y := y\<rparr>)"
| "step p (FilterClick k) =
     p\<lparr>gallery := map_option (\<lambda>g. if k < length (filters g) then filter_click k g else g) (gallery p)\<rparr>"
| "step p LoadMoreClick =
     p\<lparr>gallery := map_option (\<lambda>g. if load_more g = Some True then load_more_click g else g) (gallery p)\<rparr>"
| "step p (FaqClick k) = p\<lparr>faqs := (if k < length (faqs p) then faq_click k (faqs p) else faqs p)\<rparr>"
| "step p SubmitForm = p\<lparr>form := map_option form_submit (form p)\<rparr>"

definition run :: "page \<Rightarrow> event list \<Rightarrow> page" where
  "run p es = foldl step p es"

inductive reach :: "page \<Rightarrow> page \<Rightarrow> bool" where
  reach_refl: "reach p p"
| reach_step: "reach p q \<Longrightarrow> reach p (step q e)"

subsection \<open>Invariants and sample page\<close>

text \<open>
  The menu button's \<open>aria-expanded\<close> says \<open>'true'\<close> exactly when the menu is shown; at
  most one FAQ answer is open and its icon is rotated exactly when it is open; the
  load-more counter starts at 8, grows by 4, and the button is hidden only when the
  counter has passed the last item.
\<close>

definition menu_consistent :: "menu \<Rightarrow> bool" where
  "menu_consistent m \<longleftrightarrow> (aria_expanded m = Some ''true'') = (\<not> menu_hidden m)"

definition menu_ok :: "page \<Rightarrow> bool" where
  "menu_ok p = (case menu p of None \<Rightarrow> True | Some m \<Rightarrow> (aria_expanded m = Some ''true'') = (\<not> menu_hidden m))"

definition faq_ok :: "faq list \<Rightarrow> bool" where
  "faq_ok fs \<longleftrightarrow>
     (\<forall>i<length fs. \<forall>j<length fs. \<not> faq_hidden (fs ! i) \<and> \<not> faq_hidden (fs ! j) \<longrightarrow> i = j) \<and>
     (\<forall>i<length fs. icon_rotate (fs ! i) = (\<not> faq_hidden (fs ! i)))"

definition gallery_ok :: "gallery \<Rightarrow> bool" where
  "gallery_ok g \<longleftrightarrow> 8 \<le> current_items g \<and> (current_items g - 8) mod 4 = 0 \<and>
     (load_more g = Some False \<longrightarrow> length (items g) \<le> current_items g)"

definition demo_gallery :: gallery where
  "demo_gallery =
     \<lparr>filters = [(Some ''all'', True), (Some ''sports'', False), (Some ''arts'', False)],
      items = map (\<lambda>i. (Some (if i < 9 then ''sports'' else ''arts''), i < 8)) [0..<13],
      current_items = 8, load_more = Some True\<rparr>"

definition demo_page :: page where
  "demo_page =
     \<lparr>menu = Some \<lparr>menu_hidden = True, aria_expanded = Some ''false''\<rparr>, scroll_y = 0,
      gallery = Some demo_gallery,
      faqs = replicate 3 \<lparr>faq_hidden = True, icon_transform = False, icon_rotate = False\<rparr>,
      form = Some \<lparr>form_fields = [(''name'', ''Ann''), (''email'', ''ann@example.org'')],
                   form_defaults = [(''name'', ''''), (''email'', '''')], submitted = [], alerts = []\<rparr>\<rparr>"

subsection \<open>Lemmas\<close>

lemma menu_click_consistent: "menu_consistent m \<Longrightarrow> menu_consistent (menu_click m)"
  by (simp add: menu_consistent_def menu_click_def js_bool_def)

lemma anchor_click_consistent:
  "anchor_click href target mm y = (mm', y') \<Longrightarrow> (\<forall>m. mm = Some m \<longrightarrow> menu_consistent m) \<Longrightarrow>
   (\<forall>m. mm' = Some m \<longrightarrow> menu_consistent m)"
  by (auto simp: anchor_click_def menu_consistent_def split: if_splits option.splits)

lemma menu_ok_step: "menu_ok p \<Longrightarrow> menu_ok (step p e)"
proof (cases e)
  case (AnchorClick href target)
  obtain m y where a: "anchor_click href target (menu p) (scroll_y p) = (m, y)" by fastforce
  assume "menu_ok p"
  then have "\<forall>m'. menu p = Some m' \<longrightarrow> menu_consistent m'"
    by (auto simp: menu_ok_def menu_consistent_def)
  from anchor_click_consistent [OF a this] a AnchorClick show ?thesis
    by (auto simp: menu_ok_def menu_consistent_def split: option.splits)
qed (auto simp: menu_ok_def menu_click_consistent [unfolded menu_consistent_def] split: option.splits)

lemma faq_click_nth:
  "k < length fs \<Longrightarrow> j < length fs \<Longrightarrow> faq_click k fs ! j =
     (if j = k then (fs ! j)\<lparr>faq_hidden := \<not> faq_hidden (fs ! j), icon_transform := \<not> icon_transform (fs ! j),
                        icon_rotate := \<not> icon_rotate (fs ! j)\<rparr>
      else (fs ! j)\<lparr>faq_hidden := True, icon_rotate := False\<rparr>)"
  by (simp add: faq_click_def nth_enumerate_eq)

lemma length_faq_click [simp]: "length (faq_click k fs) = length fs"
  by (simp add: faq_click_def)

lemma faq_ok_click: "faq_ok fs \<Longrightarrow> k < length fs \<Longrightarrow> faq_ok (faq_click k fs)"
  unfolding faq_ok_def by (auto simp: faq_click_nth)

lemma faq_ok_step: "faq_ok (faqs p) \<Longrightarrow> faq_ok (faqs (step p e))"
  by (cases e) (auto simp: faq_ok_click Let_def split: prod.splits)

lemma filter_click_counters [simp]:
  "current_items (filter_click k g) = current_items g" "load_more (filter_click k g) = load_more g"
  "length (items (filter_click k g)) = length (items g)"
  by (simp_all add: filter_click_def Let_def)

lemma gallery_ok_load_more: "gallery_ok g \<Longrightarrow> load_more g = Some True \<Longrightarrow> gallery_ok (load_more_click g)"
  by (auto simp: gallery_ok_def load_more_click_def Let_def) presburger

lemma gallery_ok_step:
  "(\<forall>g. gallery p = Some g \<longrightarrow> gallery_ok g) \<Longrightarrow> gallery (step p e) = Some g' \<Longrightarrow> gallery_ok g'"
  by (cases e) (auto simp: gallery_ok_load_more Let_def split: prod.splits if_splits,
      auto simp: gallery_ok_def)

lemma gallery_run: "gallery p \<noteq> None \<Longrightarrow> gallery (run p es) \<noteq> None"
proof (induction es rule: rev_induct)
  case (snoc e es)
  then show ?case by (cases e) (auto simp: run_def Let_def split: prod.splits)
qed (simp add: run_def)

lemma length_faqs_run: "length (faqs (run p es)) = length (faqs p)"
proof (induction es rule: rev_induct)
  case (snoc e es)
  then show ?case by (cases e) (auto simp: run_def Let_def split: prod.splits)
qed (simp add: run_def)

lemma reach_run: "reach p (run p es)"
proof (induction es rule: rev_induct)
  case Nil
  then show ?case by (simp add: run_def reach_refl)
next
  case (snoc e es)
  then show ?case using reach_step [of p "run p es" e] by (simp add: run_def)
qed

subsection \<open>Properties of main.js\<close>

text \<open>
  C22. Invariant: on every page reachable by clicks, anchors and submissions from a page
  whose menu button's \<open>aria-expanded\<close> matches the menu's visibility, it still matches.
\<close>

theorem menu_aria_invariant: "reach p q \<Longrightarrow> menu_ok p \<Longrightarrow> menu_ok q"
  by (induction rule: reach.induct) (auto intro: menu_ok_step)

lemma menu_aria_invariant_witness:
  "menu_ok (run demo_page [MenuClick, AnchorClick ''#about'' (Some 500), MenuClick, MenuClick])"
  using menu_aria_invariant [OF reach_run] by (simp add: menu_ok_def demo_page_def)

text \<open>
  C23. Invariant: starting from an accordion with at most one answer open and icons
  rotated exactly on open answers, every reachable accordion has the same property.
\<close>

theorem faq_invariant: "reach p q \<Longrightarrow> faq_ok (faqs p) \<Longrightarrow> faq_ok (faqs q)"
  by (induction rule: reach.induct) (auto intro: faq_ok_step)

lemma faq_invariant_witness: "faq_ok (faqs (run demo_page [FaqClick 0, FaqClick 2, FaqClick 2, FaqClick 1]))"
proof -
  have "faq_ok (faqs demo_page)" by (simp add: faq_ok_def demo_page_def)
  from faq_invariant [OF reach_run this] show ?thesis .
qed

text \<open>
  C26. The \<open>transform\<close> class of a FAQ icon counts clicks, not the open state: along
  any sequence of events, it is toggled exactly by the clicks on its own question and
  is never reset when another question closes that answer (lines 180--189), so it
  holds its initial value exactly when its question was clicked an even number of
  times, while the answer may have been closed by other clicks in between.
\<close>

theorem faq_transform_parity:
  assumes "k < length (faqs p)"
  shows "icon_transform (faqs (run p es) ! k) =
           (icon_transform (faqs p ! k) \<noteq> odd (length (filter (\<lambda>e. e = FaqClick k) es)))"
proof (induction es rule: rev_induct)
  case (snoc e es)
  have k: "k < length (faqs (run p es))" using assms by (simp add: length_faqs_run)
  have "icon_transform (faqs (step q e) ! k) = (icon_transform (faqs q ! k) \<noteq> (e = FaqClick k))"
    if "k < length (faqs q)" for q
    using that by (cases e) (auto simp: faq_click_nth Let_def split: prod.splits)
  from this [OF k] snoc show ?case by (simp add: run_def)
qed (simp add: run_def)

lemma faq_transform_parity_witness:
  "icon_transform (faqs (run demo_page [FaqClick 0, FaqClick 1, FaqClick 0]) ! 0) =
     (icon_transform (faqs demo_page ! 0) \<noteq> odd (length (filter (\<lambda>e. e = FaqClick 0) [FaqClick 0, FaqClick 1, FaqClick 0])))"
  using faq_transform_parity [of 0 demo_page "[FaqClick 0, FaqClick 1, FaqClick 0]"]
  by (simp add: demo_page_def)

lemma faq_transform_drift:
  "(let fs = faqs (run demo_page [FaqClick 0, FaqClick 1, FaqClick 0]) in
     \<not> faq_hidden (fs ! 0) \<and> icon_rotate (fs ! 0) \<and> \<not> icon_transform (fs ! 0))"
  by code_simp

text \<open>
  C24. Invariant of the gallery: the load-more counter is 8 plus a multiple of 4, and the
  button is hidden only once the counter has reached the number of items.
\<close>

theorem gallery_invariant:
  "reach p q \<Longrightarrow> (\<forall>g. gallery p = Some g \<longrightarrow> gallery_ok g) \<Longrightarrow> gallery q = Some g' \<Longrightarrow> gallery_ok g'"
proof (induction arbitrary: g' rule: reach.induct)
  case (reach_step p q e)
  then show ?case using gallery_ok_step [of q e g'] by blast
qed simp

lemma gallery_invariant_witness:
  "\<exists>g. gallery (run demo_page [FilterClick 1, LoadMoreClick, LoadMoreClick]) = Some g \<and> gallery_ok g"
proof -
  have ok: "\<forall>g. gallery demo_page = Some g \<longrightarrow> gallery_ok g"
    by (simp add: gallery_ok_def demo_page_def demo_gallery_def)
  have "gallery demo_page \<noteq> None" by (simp add: demo_page_def)
  then obtain g where g: "gallery (run demo_page [FilterClick 1, LoadMoreClick, LoadMoreClick]) = Some g"
    using gallery_run by blast
  with gallery_invariant [OF reach_run ok g] show ?thesis by blast
qed

text \<open>
  C25. Load more ignores the active filter: after any filter button, the next four items
  from the counter on are displayed whatever their category.
\<close>

theorem load_more_ignores_filter:
  assumes "k < length (filters g)" "current_items g \<le> i" "i < current_items g + 4" "i < length (items g)"
  shows "snd (items (load_more_click (filter_click k g)) ! i)"
  using assms by (simp add: load_more_click_def filter_click_def Let_def nth_enumerate_eq split: prod.splits)

lemma load_more_ignores_filter_witness:
  "snd (items (load_more_click (filter_click 1 demo_gallery)) ! 9) \<and>
   fst (items demo_gallery ! 9) \<noteq> fst (filters demo_gallery ! 1)"
  using load_more_ignores_filter [of 1 demo_gallery 9] by (simp add: demo_gallery_def)

text \<open>
  C27. Equivalence: the three-way test of lines 49--51 is the test \<open>href = currentPage\<close>,
  or \<open>'./'\<close> on the home page; the branch for an empty \<open>currentPage\<close> never applies,
  because line 46 replaces an empty name by \<open>'index.html'\<close>.
\<close>

theorem nav_active_equiv:
  "nav_update pathname links =
     map (\<lambda>h. h = Some (current_page pathname) \<or> (current_page pathname = ''index.html'' \<and> h = Some ''./'')) links"
proof -
  have "current_page pathname \<noteq> []" by (simp add: current_page_def Let_def)
  then show ?thesis by (auto simp: nav_update_def link_active_def split: option.splits)
qed

end
