(* ===== verification/Spec2Isabelle.thy ===== *)
theory Spec2Isabelle
  imports BuildJs MainJs
begin

text \<open>
  \<^bold>\<open>A verification development of the ExcelAcademy site build.\<close>

  The repository is a static web site with two Node build scripts and one front-end
  script. \<open>src/build-simple.js\<close> creates \<open>dist\<close>, empties it, walks the source
  tree (\<open>copyFiles\<close>), copies each file that is not excluded into \<open>dist\<close>, minifies
  HTML, CSS and JavaScript copies in place with regular-expression replacements
  (\<open>minifyFile\<close>), writes \<open>sitemap.xml\<close> and \<open>robots.txt\<close>, and reports the size
  of the output (\<open>build\<close>, \<open>getDirectorySize\<close>). \<open>src/build.js\<close> is a variant that
  calls third-party minifiers, writes gzip and brotli sidecars for large text files and
  a service worker. \<open>src/assets/js/main.js\<close> runs in the browser: menu toggle, smooth
  scrolling, active navigation link, gallery filter and "load more", contact form and
  FAQ accordion. The two build scripts share the file-system model; the browser
  script is independent of them.

  \<^bold>\<open>Theories.\<close>
  \<^item> \<^theory_text>\<open>Prelude\<close>: JavaScript strings as HOL strings of Latin-1 code units,
    the ECMAScript classes \<open>\s\<close> and line terminator on that range,
    \<open>String.prototype.trim\<close> (\<open>js_trim\<close>), and the list, prefix and sum lemmas the
    components share.
  \<^item> \<^theory_text>\<open>Regex\<close>: \<open>String.prototype.replace\<close> with a global pattern
    (\<open>gsub\<close>, a left-to-right scan over anchored match attempts) and one matcher per
    pattern shape the scripts use, with the generic facts on shrinking matchers,
    matchers that keep the non-whitespace characters, and matchers that only delete
    whitespace (\<open>ws_del\<close>, with the relations on neighbours such deletion
    preserves).
  \<^item> \<^theory_text>\<open>Minify\<close>: \<open>minifyFile\<close> of \<open>build-simple.js\<close> (lines 82--129):
    \<open>minify_html\<close>, \<open>minify_css\<close>, \<open>minify_js\<close> as the chains of replacements in
    source order, the \<open>switch\<close> (\<open>minify_text\<close>) and the write guard
    (\<open>minified_content\<close>).
  \<^item> \<^theory_text>\<open>FileSystem\<close>: the calls of Node's \<open>fs\<close> and \<open>path\<close> as operations
    on an association list from paths to nodes in creation order
    (\<open>exists_sync\<close>, \<open>mkdir_p\<close>, \<open>rm_rf\<close>, \<open>readdir\<close>, \<open>read_file\<close>,
    \<open>write_file\<close>, \<open>copy_file\<close>), each returning \<open>error + fs\<close>, with the
    well-formedness invariant \<open>wf_fs\<close> (distinct paths, every parent a directory)
    and its preservation by every writing operation, and the fact that no operation
    but \<open>rm_rf\<close> removes a directory (\<open>dirs_kept\<close>).
  \<^item> \<^theory_text>\<open>Walker\<close>: the \<open>config\<close> object and \<open>copyFiles\<close> of
    \<open>build-simple.js\<close> (lines 6--79) as the mutually recursive \<open>copy_files\<close> /
    \<open>copy_items\<close> with \<open>copy_one\<close> for a file, and the abstract specification
    \<open>mirror\<close>: the list of entries the walk must add, computed from the source tree
    alone.
  \<^item> \<^theory_text>\<open>Build\<close>: \<open>build\<close> of \<open>build-simple.js\<close> (lines 20--23, 181--212) as
    \<open>prepare\<close>, \<open>clean\<close> and \<open>build\<close>, the generators \<open>generate_sitemap\<close> and
    \<open>generate_robots_txt\<close> (lines 132--178) and \<open>getDirectorySize\<close> as
    \<open>dir_size\<close> (lines 215--235).
  \<^item> \<^theory_text>\<open>BuildJs\<close>: \<open>src/build.js\<close>: the libraries as a record of functions
    (\<open>libs\<close>), \<open>copy_files_js\<close> / \<open>copy_items_js\<close> with the path-substring
    exclusion \<open>skip_js\<close>, \<open>minify_to\<close> and \<open>write_sidecars\<close>, the service worker,
    sitemap and robots writers and \<open>build_js\<close>.
  \<^item> \<^theory_text>\<open>MainJs\<close>: \<open>main.js\<close> as a record of the page state, a datatype of
    events, one function per listener, \<open>step\<close> dispatching them and the inductive
    reachability relation \<open>reach\<close>.

  \<^bold>\<open>What the lemmas show.\<close>
  \<^item> The build of \<open>build-simple.js\<close> (C1--C7, C9, C21): on a tree with distinct
    paths it returns exactly the cleaned tree, the mirror of the sources and the two
    generated files, with the size of \<open>dist\<close> as report (C1); the walk refines the
    specification \<open>mirror\<close> (C2), adds exactly the non-excluded files and directories
    (C3), never copies an excluded name (C4) and terminates when given the depth of the
    tree (C9); nothing outside \<open>dist\<close> is ever changed (C5); the report counts the
    bytes and files below \<open>dist\<close> (C6); a second build gives the same tree (C7); and
    the sitemap lists one URL per page, read back in order (C21).
  \<^item> \<open>build.js\<close> (C8, C10--C12): it never completes, because its exclusion test does
    not exclude \<open>dist\<close> and the walk descends into \<open>dist/dist/...\<close> forever (C8,
    proved for every fuel through the frame predicate \<open>within\<close>); sidecars are
    written exactly above 1024 characters (C10); a library failure aborts the walk
    (C11); every directory walked is recreated in \<open>dist\<close>, excluded names included
    (C12, through the frame predicate \<open>dirs_kept\<close>).
  \<^item> The minifiers (C13--C20): no minifier lengthens a text (C13); the JavaScript
    minifier removes only whitespace once comments are gone (C14); the comment step
    deletes the character before \<open>//\<close> (C15); the JavaScript output has single plain
    spaces, none at its ends and none next to an operator character, string literals
    included (C16, through the relation \<open>ws_del\<close> of whitespace deletion); lines 115
    and 116 never change the text (C17); no whitespace remains between HTML tags
    (C18) or around CSS syntax characters (C19); whitespace collapse yields single
    plain spaces (C20). Worked examples evaluate the patterns on small inputs.
  \<^item> \<open>main.js\<close> (C22--C27): by rule induction on \<open>reach\<close>, the menu's
    \<open>aria-expanded\<close> matches the menu's visibility (C22), at most one FAQ answer is
    open with its icon rotated (C23), and the gallery counter is 8 plus a multiple of 4
    with the button hidden only once all items are shown (C24); "load more" displays the
    next items whatever the active filter (C25); by induction on the event list, an
    icon's \<open>transform\<close> class is the parity of the clicks on its question (C26); the
    navigation highlight agrees with its reference definition (C27).

  \<^bold>\<open>Fuel and termination.\<close>
  The walks read the live tree while writing into it, so their recursion is not
  structural; they take a fuel argument that bounds the depth, \<open>None\<close> meaning the
  fuel ran out. Every path of the source tree is shorter than the fuel \<open>n\<close> in C1
  and C9: one unit is spent per directory level, so a tree of depth \<open>d\<close> needs
  \<open>d + 1\<close>, and C9 proves that this is enough. C8 holds for every fuel: with fuel the
  walk either runs out or keeps descending, never returning a tree. \<open>gsub\<close>
  terminates because each step consumes at least one character; \<open>dir_size\<close>, which
  recurses through a fold over the listing, terminates by the measure
  \<open>Suc (max_depth st) - length dir\<close>; \<open>sitemap_locs\<close> by the length of its input.

  \<^bold>\<open>Not modelled.\<close>
  \<open>tailwind.config.js\<close> is static configuration read by the Tailwind tool. The
  third-party libraries and zlib are parameters of \<open>build.js\<close>, not definitions;
  image optimisation is a parameter likewise. Console output, \<open>alert\<close>, smooth
  scrolling, timers and the \<open>window\<close> export of \<open>main.js\<close> have no effect on the
  modelled state. The sitemap date, read from the clock, is a parameter.
  Characters above U+00FF (where \<open>\s\<close> has more members) and UTF-8 byte counts of
  non-ASCII files are not modelled: a character counts one byte.
\<close>

end
